theory Spec2Isabelle
  imports Main "HOL-Library.Code_Target_Nat"
begin

section \<open>JavaScript strings and values\<close>

text \<open>
  A JavaScript string is a sequence of UTF-16 code units; a code unit is modelled as a
  natural number, so that the non-ASCII characters of the patterns (the CJK keyword of the
  fourth extraction rule, the Unicode members of \<open>\s\<close>) are ordinary values.
  \<open>str\<close> embeds an ASCII literal.
\<close>

type_synonym jsstring = "nat list"

definition cu :: "char \<Rightarrow> nat" where
  "cu ch = of_char ch"

definition str :: "string \<Rightarrow> jsstring" where
  "str s = map cu s"

datatype jsval = Undefined | Str jsstring

text \<open>\<open>ToString\<close> and \<open>ToBoolean\<close> on the two kinds of value a match array holds.\<close>

fun toString :: "jsval \<Rightarrow> jsstring" where
  "toString Undefined = str ''undefined''"
| "toString (Str s) = s"

fun truthy :: "jsval \<Rightarrow> bool" where
  "truthy Undefined = False"
| "truthy (Str s) = (s \<noteq> [])"

text \<open>\<open>String.prototype.substring(i, j)\<close> for \<open>i \<le> j\<close>.\<close>

definition substring :: "jsstring \<Rightarrow> nat \<Rightarrow> nat \<Rightarrow> jsstring" where
  "substring t i j = take (j - i) (drop i t)"

text \<open>\<open>String.prototype.startsWith\<close> and \<open>String.prototype.includes\<close>.\<close>

fun startsWith :: "jsstring \<Rightarrow> jsstring \<Rightarrow> bool" where
  "startsWith t [] = True"
| "startsWith [] (p # ps) = False"
| "startsWith (c # cs) (p # ps) = (c = p \<and> startsWith cs ps)"

fun str_includes :: "jsstring \<Rightarrow> jsstring \<Rightarrow> bool" where
  "str_includes [] p = startsWith [] p"
| "str_includes (c # cs) p = (startsWith (c # cs) p \<or> str_includes cs p)"

text \<open>
  \<open>s.split(sep)\<close> for a separator of one code unit: the pieces between the separators,
  always at least one piece.
\<close>

fun split :: "nat \<Rightarrow> jsstring \<Rightarrow> jsstring list" where
  "split sep [] = [] # []"
| "split sep (c # cs) =
     (if c = sep then [] # split sep cs
      else (case split sep cs of
              [] \<Rightarrow> [c] # []
            | p # ps \<Rightarrow> (c # p) # ps))"

definition split_colon :: "jsstring \<Rightarrow> jsstring list" where
  "split_colon s = split (cu CHR '':'') s"

text \<open>Array indexing \<open>a[i]\<close>: \<open>undefined\<close> out of range.\<close>

definition idx :: "jsstring list \<Rightarrow> nat \<Rightarrow> jsval" where
  "idx a i = (if i < length a then Str (a ! i) else Undefined)"

section \<open>Regular expressions\<close>

text \<open>
  The patterns of the program are values of \<open>regex\<close>. The matcher is the backtracking
  matcher of ECMAScript written as a list of successes: \<open>m r t x\<close> lists, in the order in
  which backtracking tries them, the states in which \<open>r\<close> can end when started in state
  \<open>x\<close> on the text \<open>t\<close>. A state is the end index and the captures.
\<close>

datatype regex =
    Cls "nat \<Rightarrow> bool"
  | Eps
  | Seq regex regex
  | Alt regex regex
  | Star regex
  | Grp nat regex
  | WordB
  | BeginA
  | EndA

type_synonym captures = "nat \<Rightarrow> (nat \<times> nat) option"
type_synonym mstate = "nat \<times> captures"

primrec groups :: "regex \<Rightarrow> nat set" where
  "groups (Cls p) = {}"
| "groups Eps = {}"
| "groups (Seq a b) = groups a \<union> groups b"
| "groups (Alt a b) = groups a \<union> groups b"
| "groups (Star a) = groups a"
| "groups (Grp n a) = insert n (groups a)"
| "groups WordB = {}"
| "groups BeginA = {}"
| "groups EndA = {}"

definition isDigit :: "nat \<Rightarrow> bool" where
  "isDigit c = (cu CHR ''0'' \<le> c \<and> c \<le> cu CHR ''9'')"

definition isAlpha :: "nat \<Rightarrow> bool" where
  "isAlpha c = ((cu CHR ''a'' \<le> c \<and> c \<le> cu CHR ''z'') \<or> (cu CHR ''A'' \<le> c \<and> c \<le> cu CHR ''Z''))"

text \<open>\<open>\w\<close> is \<open>[A-Za-z0-9_]\<close>.\<close>

definition isWordChar :: "nat \<Rightarrow> bool" where
  "isWordChar c = (isAlpha c \<or> isDigit c \<or> c = cu CHR ''_'')"

text \<open>
  \<open>\s\<close>: the WhiteSpace and LineTerminator code units of ECMAScript (TAB, LF, VT, FF, CR,
  SP, NBSP, U+1680, U+2000 to U+200A, U+2028, U+2029, U+202F, U+205F, U+3000, U+FEFF).
\<close>

definition isSpace :: "nat \<Rightarrow> bool" where
  "isSpace c = ((9 \<le> c \<and> c \<le> 13) \<or> c = 32 \<or> c = 160 \<or> c = 5760
      \<or> (8192 \<le> c \<and> c \<le> 8202) \<or> c = 8232 \<or> c = 8233 \<or> c = 8239 \<or> c = 8287
      \<or> c = 12288 \<or> c = 65279)"

text \<open>The assertion \<open>\b\<close> at index \<open>i\<close>.\<close>

definition isWordBoundary :: "jsstring \<Rightarrow> nat \<Rightarrow> bool" where
  "isWordBoundary t i =
     ((0 < i \<and> i \<le> length t \<and> isWordChar (t ! (i - 1))) \<noteq> (i < length t \<and> isWordChar (t ! i)))"

text \<open>
  The greedy \<open>*\<close>: an iteration that consumes nothing is rejected, the captures of the
  body are reset before each iteration, and the longer matches come first. The fuel is
  the number of code units left, and every counted iteration consumes one.
\<close>

primrec star_iter :: "(mstate \<Rightarrow> mstate list) \<Rightarrow> nat \<Rightarrow> mstate \<Rightarrow> mstate list" where
  "star_iter f 0 = (\<lambda>x. [x])"
| "star_iter f (Suc n) =
     (\<lambda>x. concat (map (star_iter f n) (filter (\<lambda>y. fst y \<noteq> fst x) (f x))) @ [x])"

definition reset :: "nat set \<Rightarrow> mstate \<Rightarrow> mstate" where
  "reset G x = (fst x, (\<lambda>n. if n \<in> G then None else snd x n))"

primrec m :: "regex \<Rightarrow> jsstring \<Rightarrow> mstate \<Rightarrow> mstate list" where
  "m (Cls p) t = (\<lambda>x. if fst x < length t \<and> p (t ! fst x) then [(Suc (fst x), snd x)] else [])"
| "m Eps t = (\<lambda>x. [x])"
| "m (Seq a b) t = (\<lambda>x. concat (map (m b t) (m a t x)))"
| "m (Alt a b) t = (\<lambda>x. m a t x @ m b t x)"
| "m (Star a) t = (\<lambda>x. star_iter (\<lambda>y. m a t (reset (groups a) y)) (length t - fst x) x)"
| "m (Grp n a) t = (\<lambda>x. map (\<lambda>y. (fst y, (snd y)(n \<mapsto> (fst x, fst y)))) (m a t x))"
| "m WordB t = (\<lambda>x. if isWordBoundary t (fst x) then [x] else [])"
| "m BeginA t = (\<lambda>x. if fst x = 0 then [x] else [])"
| "m EndA t = (\<lambda>x. if fst x = length t then [x] else [])"

text \<open>Derived forms: \<open>r+\<close>, \<open>r?\<close>, \<open>r{1,3}\<close>, a literal, a literal under the \<open>i\<close> flag.\<close>

definition Plus :: "regex \<Rightarrow> regex" where
  "Plus r = Seq r (Star r)"

definition Opt :: "regex \<Rightarrow> regex" where
  "Opt r = Alt r Eps"

definition Rep13 :: "regex \<Rightarrow> regex" where
  "Rep13 r = Seq r (Opt (Seq r (Opt r)))"

definition Chr :: "char \<Rightarrow> regex" where
  "Chr ch = Cls (\<lambda>c. c = cu ch)"

text \<open>
  Canonicalization under the \<open>i\<close> flag without the \<open>u\<close> flag maps a code unit to its upper
  case, except that a non-ASCII code unit is never mapped to an ASCII one; for the
  characters of the patterns of this program (ASCII letters, the dot, three CJK
  characters) that is the ASCII upper case.
\<close>

definition canonicalize :: "nat \<Rightarrow> nat" where
  "canonicalize c = (if cu CHR ''a'' \<le> c \<and> c \<le> cu CHR ''z'' then c - 32 else c)"

definition lit :: "jsstring \<Rightarrow> regex" where
  "lit s = foldr (\<lambda>c r. Seq (Cls (\<lambda>x. x = c)) r) s Eps"

definition lit_i :: "jsstring \<Rightarrow> regex" where
  "lit_i s = foldr (\<lambda>c r. Seq (Cls (\<lambda>x. canonicalize x = canonicalize c)) r) s Eps"

text \<open>
  \<open>RegExpBuiltinExec\<close>: the first start index from \<open>lastIndex\<close> on at which the pattern
  matches, with the first state of the matcher there.
\<close>

function regExpExec :: "regex \<Rightarrow> jsstring \<Rightarrow> nat \<Rightarrow> (nat \<times> mstate) option" where
  "regExpExec r t lastIndex =
     (if length t < lastIndex then None
      else (case m r t (lastIndex, Map.empty) of
              [] \<Rightarrow> regExpExec r t (Suc lastIndex)
            | y # ys \<Rightarrow> Some (lastIndex, y)))"
  by pat_completeness auto
termination
  by (relation "measure (\<lambda>(r, t, k). Suc (length t) - k)") auto

text \<open>\<open>match[n]\<close> of the match array, and \<open>RegExp.prototype.test\<close> of a pattern without the \<open>g\<close> flag.\<close>

definition matchGroup :: "jsstring \<Rightarrow> mstate \<Rightarrow> nat \<Rightarrow> jsval" where
  "matchGroup t y n = (case snd y n of None \<Rightarrow> Undefined | Some (a, b) \<Rightarrow> Str (substring t a b))"

definition test :: "regex \<Rightarrow> jsstring \<Rightarrow> bool" where
  "test r t = (case regExpExec r t 0 of None \<Rightarrow> False | Some z \<Rightarrow> True)"

section \<open>Outcomes of computations\<close>

text \<open>
  A call returns a value, throws, or never returns. \<open>tryCatch\<close> is the statement
  \<open>try { ... } catch (error) { ... }\<close>.
\<close>

datatype exn = TypeError | Error

datatype 'a outcome = Returns 'a | Throws exn | Diverges

fun bind :: "'a outcome \<Rightarrow> ('a \<Rightarrow> 'b outcome) \<Rightarrow> 'b outcome" where
  "bind (Returns a) f = f a"
| "bind (Throws e) f = Throws e"
| "bind Diverges f = Diverges"

fun tryCatch :: "'a outcome \<Rightarrow> (exn \<Rightarrow> 'a outcome) \<Rightarrow> 'a outcome" where
  "tryCatch (Returns a) h = Returns a"
| "tryCatch (Throws e) h = h e"
| "tryCatch Diverges h = Diverges"

section \<open>The extractor of \<open>src/main.js\<close>\<close>

definition hostChar :: "nat \<Rightarrow> bool" where
  "hostChar c = (isAlpha c \<or> isDigit c \<or> c = cu CHR ''.'' \<or> c = cu CHR ''-'')"

definition alnum :: "nat \<Rightarrow> bool" where
  "alnum c = (isAlpha c \<or> isDigit c)"

text \<open>\<open>[a-zA-Z0-9][a-zA-Z0-9.-]*\.[a-zA-Z0-9]+\<close>, the domain shape used by three patterns.\<close>

definition domainRe :: regex where
  "domainRe = Seq (Cls alnum) (Seq (Star (Cls hostChar)) (Seq (Chr CHR ''.'') (Plus (Cls alnum))))"

text \<open>\<open>\d{1,3}\.\d{1,3}\.\d{1,3}\.\d{1,3}\<close>.\<close>

definition quadRe :: regex where
  "quadRe = Seq (Rep13 (Cls isDigit)) (Seq (Chr CHR ''.'') (Seq (Rep13 (Cls isDigit))
     (Seq (Chr CHR ''.'') (Seq (Rep13 (Cls isDigit)) (Seq (Chr CHR ''.'') (Rep13 (Cls isDigit)))))))"

text \<open>\<open>/(?:kms|KMS)\s*:\s*([a-zA-Z0-9.-]+(?::\d+)?)/g\<close>\<close>

definition kmsLabelRe :: regex where
  "kmsLabelRe =
     Seq (Alt (lit (str ''kms'')) (lit (str ''KMS'')))
    (Seq (Star (Cls isSpace))
    (Seq (Chr CHR '':'')
    (Seq (Star (Cls isSpace))
         (Grp 1 (Seq (Plus (Cls hostChar)) (Opt (Seq (Chr CHR '':'') (Plus (Cls isDigit)))))))))"

text \<open>\<open>/\b([a-zA-Z0-9][a-zA-Z0-9.-]*\.[a-zA-Z0-9]+)(?::(\d+))?\b/g\<close>\<close>

definition domainTokenRe :: regex where
  "domainTokenRe =
     Seq WordB
    (Seq (Grp 1 domainRe)
    (Seq (Opt (Seq (Chr CHR '':'') (Grp 2 (Plus (Cls isDigit)))))
         WordB))"

text \<open>\<open>/\b(\d{1,3}\.\d{1,3}\.\d{1,3}\.\d{1,3})(?::(\d+))?\b/g\<close>\<close>

definition ipTokenRe :: regex where
  "ipTokenRe =
     Seq WordB
    (Seq (Grp 1 quadRe)
    (Seq (Opt (Seq (Chr CHR '':'') (Grp 2 (Plus (Cls isDigit)))))
         WordB))"

text \<open>
  \<open>/(?:SERVER_CJK|server)[^\w\d\r\n]*([a-zA-Z0-9][a-zA-Z0-9.-]*\.[a-zA-Z0-9]+(?::\d+)?)/gi\<close>,
  where \<open>SERVER_CJK\<close> is the three-character Chinese word for "server",
  U+670D U+52A1 U+5668.
\<close>

definition serverKeywordRe :: regex where
  "serverKeywordRe =
     Seq (Alt (lit_i [26381, 21153, 22120]) (lit_i (str ''server'')))
    (Seq (Star (Cls (\<lambda>c. \<not> (isWordChar c \<or> isDigit c \<or> c = 13 \<or> c = 10))))
         (Grp 1 (Seq domainRe (Opt (Seq (Chr CHR '':'') (Plus (Cls isDigit)))))))"

text \<open>
  The patterns in the order of the source. The flag records the test
  \<open>regex.source.includes('\\d{1,3}\\.\\d{1,3}')\<close>, true of the third pattern only.
\<close>

definition regexPatterns :: "(bool \<times> regex) list" where
  "regexPatterns =
     [(False, kmsLabelRe), (False, domainTokenRe), (True, ipTokenRe), (False, serverKeywordRe)]"

text \<open>The patterns of \<open>isLikelyKmsServer\<close>, in the order of the source.\<close>

definition notKmsPatterns :: "regex list" where
  "notKmsPatterns =
     [lit_i (str ''github.com''),
      lit_i (str ''example.com''),
      lit_i (str ''localhost''),
      lit (str ''127.0.0.1''),
      lit_i (str ''test.''),
      Seq (lit_i (str ''.js'')) EndA,
      Seq (lit_i (str ''.css'')) EndA,
      Seq (lit_i (str ''.html'')) EndA,
      Seq (lit_i (str ''.png'')) EndA,
      Seq (lit_i (str ''.jpg'')) EndA,
      Seq (lit_i (str ''.gif'')) EndA]"

definition kmsPatterns :: "regex list" where
  "kmsPatterns = [lit_i (str ''kms''), lit_i (str ''vlmcs''), lit_i (str ''activate''), quadRe]"

definition isLikelyKmsServer :: "jsstring \<Rightarrow> bool" where
  "isLikelyKmsServer server =
     (if list_ex (\<lambda>pattern. test pattern server) notKmsPatterns then False
      else if list_ex (\<lambda>pattern. test pattern server) kmsPatterns then True
      else test domainRe server)"

text \<open>
  The body of the \<open>while\<close> loop up to the filter: the candidate built from \<open>match[1]\<close> and
  \<open>match[2]\<close>. \<open>match[1].includes(':')\<close> throws a TypeError on \<open>undefined\<close>.
\<close>

definition serverOf :: "bool \<Rightarrow> jsval \<Rightarrow> jsval \<Rightarrow> jsstring outcome" where
  "serverOf isIp m1 m2 =
     (if isIp then
        Returns (toString m1 @ (if truthy m2 then str '':'' @ toString m2 else str '':1688''))
      else if truthy m2 then Returns (toString m1 @ str '':'' @ toString m2)
      else (case m1 of
              Undefined \<Rightarrow> Throws TypeError
            | Str s \<Rightarrow> if str_includes s (str '':'') then Returns s else Returns (s @ str '':1688'')))"

text \<open>\<open>Set.prototype.add\<close> on a set kept in insertion order.\<close>

definition set_add :: "jsstring list \<Rightarrow> jsstring \<Rightarrow> jsstring list" where
  "set_add servers server = (if server \<in> set servers then servers else servers @ [server])"

text \<open>
  \<open>while ((match = regex.exec(text)) !== null) { ... }\<close> for one pattern with the \<open>g\<close>
  flag. \<open>exec\<close> leaves \<open>lastIndex\<close> at the end of the match; a match that leaves it where
  it was is found again for ever.
\<close>

function scanLoop :: "bool \<Rightarrow> regex \<Rightarrow> jsstring \<Rightarrow> nat \<Rightarrow> jsstring list \<Rightarrow> jsstring list outcome" where
  "scanLoop isIp r t lastIndex servers =
     (case regExpExec r t lastIndex of
        None \<Rightarrow> Returns servers
      | Some (s, y) \<Rightarrow>
          (case serverOf isIp (matchGroup t y 1) (matchGroup t y 2) of
             Returns server \<Rightarrow>
               if fst y \<le> lastIndex then Diverges
               else scanLoop isIp r t (fst y)
                      (if isLikelyKmsServer server then set_add servers server else servers)
           | Throws e \<Rightarrow> Throws e
           | Diverges \<Rightarrow> Diverges))"
  by pat_completeness auto
termination
proof (relation "measure (\<lambda>(isIp, r, t, k, servers). Suc (length t) - k)")
  show "wf (measure (\<lambda>(isIp, r, t, k, servers). Suc (length t) - k))" by simp
next
  fix isIp :: bool and r t lastIndex and servers :: "jsstring list" and x2 s y x1
  assume ex: "regExpExec r t lastIndex = Some x2" and "\<not> fst y \<le> lastIndex"
  have "lastIndex \<le> length t"
  proof (rule ccontr)
    assume "\<not> lastIndex \<le> length t"
    then have "regExpExec r t lastIndex = None" by simp
    with ex show False by simp
  qed
  with \<open>\<not> fst y \<le> lastIndex\<close>
  show "((isIp, r, t, fst y, if isLikelyKmsServer x1 then set_add servers x1 else servers),
         (isIp, r, t, lastIndex, servers)) \<in> measure (\<lambda>(isIp, r, t, k, servers). Suc (length t) - k)"
    by simp
qed

text \<open>The loop over the patterns, each with a fresh \<open>RegExp\<close> object (\<open>lastIndex\<close> 0).\<close>

fun patternsLoop :: "(bool \<times> regex) list \<Rightarrow> jsstring \<Rightarrow> jsstring list \<Rightarrow> jsstring list outcome" where
  "patternsLoop [] t servers = Returns servers"
| "patternsLoop (p # ps) t servers =
     bind (scanLoop (fst p) (snd p) t 0 servers) (patternsLoop ps t)"

definition specificServers :: "jsstring list" where
  "specificServers = [str ''kms.hmg.pw:1688'', str ''kms.xingez.me:1688'', str ''140.246.142.164:1688'']"

text \<open>\<open>for (const server of specificServers) if (text.includes(server.split(':')[0])) servers.add(server)\<close>\<close>

fun specificLoop :: "jsstring list \<Rightarrow> jsstring \<Rightarrow> jsstring list \<Rightarrow> jsstring list" where
  "specificLoop [] t servers = servers"
| "specificLoop (server # rest) t servers =
     specificLoop rest t
       (if str_includes t (toString (idx (split_colon server) 0)) then set_add servers server
        else servers)"

definition extractKmsServers :: "jsstring \<Rightarrow> jsstring list outcome" where
  "extractKmsServers t =
     bind (patternsLoop regexPatterns t []) (\<lambda>servers. Returns (specificLoop specificServers t servers))"

section \<open>The candidate source of \<open>src/main.js\<close>\<close>

definition useFallbackKmsServers :: "jsstring list" where
  "useFallbackKmsServers =
     [str ''kms.hmg.pw:1688'',
      str ''kms.xingez.me:1688'',
      str ''140.246.142.164:1688'',
      str ''kms.03k.org:1688'',
      str ''kms.chinancce.com:1688'',
      str ''kms.ddns.net:1688'',
      str ''kms.ddz.red:1688'',
      str ''kms.lotro.cc:1688'',
      str ''kms.luody.info:1688'',
      str ''kms.moeclub.org:1688'',
      str ''kms8.MSGuides.com:1688'',
      str ''xykz.f3322.org:1688'',
      str ''kms.cangshui.net:1688'']"

text \<open>
  What the request for the issue gives: \<open>fetch\<close> rejects, or there is a response with its
  \<open>ok\<close> flag and a body. The body either cannot be read as an issue object
  (\<open>response.json()\<close> rejects, or the value has no properties) or is an issue whose
  \<open>body\<close> property is a string or is missing or \<open>null\<close> (\<open>Undefined\<close>).
\<close>

datatype issue_json = JsonFails | Issue jsval

datatype issue_response = FetchRejects | Response bool issue_json

definition getKmsServersFromIssue :: "issue_response \<Rightarrow> jsstring list outcome" where
  "getKmsServersFromIssue resp =
     tryCatch
       (case resp of
          FetchRejects \<Rightarrow> Throws Error
        | Response ok json \<Rightarrow>
            if \<not> ok then Returns useFallbackKmsServers
            else (case json of
                    JsonFails \<Rightarrow> Throws Error
                  | Issue body \<Rightarrow>
                      bind (extractKmsServers (if truthy body then toString body else []))
                        (\<lambda>servers. if length servers = 0 then Returns useFallbackKmsServers
                                   else Returns servers)))
       (\<lambda>error. Returns useFallbackKmsServers)"

section \<open>Probing and selection in \<open>src/main.js\<close>\<close>

text \<open>
  \<open>execPromise(command, { timeout: 5000 })\<close> resolves with the two output streams or
  rejects (non-zero exit status, the process killed at the timeout, the command not
  started). The transport is the function from the command line to that result.
\<close>

type_synonym transport = "jsstring \<Rightarrow> exn + (jsstring \<times> jsstring)"

text \<open>\<open>`nc -zv -w 3 ${host} ${port}`\<close> with \<open>[host, port] = server.split(':')\<close>.\<close>

definition ncCommand :: "jsstring \<Rightarrow> jsstring" where
  "ncCommand server =
     str ''nc -zv -w 3 '' @ toString (idx (split_colon server) 0) @ str '' ''
       @ toString (idx (split_colon server) 1)"

text \<open>
  The body of the \<open>try\<close> block for one server: it throws what \<open>execPromise\<close> rejects
  with, and otherwise tells whether the server is pushed (\<open>continue\<close> is \<open>False\<close>).
\<close>

definition probe :: "transport \<Rightarrow> jsstring \<Rightarrow> bool outcome" where
  "probe exec server =
     (case exec (ncCommand server) of
        Inl e \<Rightarrow> Throws e
      | Inr (stdout, stderr) \<Rightarrow>
          if stderr \<noteq> [] \<and> str_includes stderr (str ''Connection refused'') then Returns False
          else Returns True)"

text \<open>
  The reachable flag of a server: the body of the \<open>try\<close> block decides to push it.
\<close>

definition reachable :: "transport \<Rightarrow> jsstring \<Rightarrow> bool" where
  "reachable exec server = (probe exec server = Returns True)"

fun validateLoop :: "transport \<Rightarrow> jsstring list \<Rightarrow> jsstring list \<Rightarrow> jsstring list outcome" where
  "validateLoop exec [] validServers = Returns validServers"
| "validateLoop exec (server # rest) validServers =
     bind (tryCatch (bind (probe exec server)
                       (\<lambda>push. Returns (if push then validServers @ [server] else validServers)))
                    (\<lambda>error. Returns validServers))
          (validateLoop exec rest)"

definition validateKmsServers :: "transport \<Rightarrow> jsstring list \<Rightarrow> jsstring list outcome" where
  "validateKmsServers exec servers = validateLoop exec servers []"

definition selectKmsServer :: "jsstring list \<Rightarrow> jsval" where
  "selectKmsServer validServers = idx validServers 0"

section \<open>Publishing in \<open>src/main.js\<close>\<close>

datatype http_method = POST | PUT

record dns_request =
  req_method :: http_method
  record_id :: jsval
  rtype :: jsstring
  name :: jsstring
  content :: jsval
  ttl :: nat
  proxied :: bool

text \<open>
  The answers of the DNS provider. A lookup rejects or answers with its \<open>ok\<close> flag and,
  when the body is readable, the \<open>id\<close> of each entry of \<open>data.result\<close> (no entry when
  \<open>result\<close> is missing or empty). A write rejects or answers with its \<open>ok\<close> flag and, when
  the body is readable and has a \<open>result\<close> object, the \<open>id\<close> of it.
\<close>

datatype lookup_response = LookupRejects | LookupResponse bool "jsval list option"

datatype write_response = WriteRejects | WriteResponse bool "jsval option"

record world =
  issueFetch :: issue_response
  execNc :: transport
  cfLookup :: lookup_response
  cfWrite :: "dns_request \<Rightarrow> write_response"

definition dnsRecordName :: jsstring where
  "dnsRecordName = str ''kms.everyhub.top''"

definition getCloudflareRecordId :: "world \<Rightarrow> jsval outcome" where
  "getCloudflareRecordId w =
     (case cfLookup w of
        LookupRejects \<Rightarrow> Throws Error
      | LookupResponse ok body \<Rightarrow>
          if \<not> ok then Throws Error
          else (case body of
                  None \<Rightarrow> Throws TypeError
                | Some [] \<Rightarrow> Returns Undefined
                | Some (i # ids) \<Rightarrow> Returns i))"

text \<open>The JSON body that \<open>createCloudflareRecord\<close> and \<open>updateCloudflareRecordById\<close> send.\<close>

definition recordBody :: "http_method \<Rightarrow> jsval \<Rightarrow> jsstring \<Rightarrow> dns_request" where
  "recordBody meth rid selectedServer =
     \<lparr> req_method = meth, record_id = rid,
       rtype = str ''CNAME'',
       name = dnsRecordName,
       content = idx (split_colon selectedServer) 0,
       ttl = 120,
       proxied = False \<rparr>"

text \<open>The part of both functions after the request is built: the answer is read.\<close>

definition readWrite :: "write_response \<Rightarrow> jsval outcome" where
  "readWrite resp =
     (case resp of
        WriteRejects \<Rightarrow> Throws Error
      | WriteResponse ok body \<Rightarrow>
          if \<not> ok then Throws Error
          else (case body of None \<Rightarrow> Throws TypeError | Some i \<Rightarrow> Returns i))"

text \<open>
  Each function returns its outcome and the requests it has sent. \<open>selectedServer.split\<close>
  throws a TypeError on \<open>undefined\<close>, before any request.
\<close>

definition createCloudflareRecord :: "world \<Rightarrow> jsval \<Rightarrow> jsval outcome \<times> dns_request list" where
  "createCloudflareRecord w selectedServer =
     (case selectedServer of
        Undefined \<Rightarrow> (Throws TypeError, [])
      | Str s \<Rightarrow> (readWrite (cfWrite w (recordBody POST Undefined s)), [recordBody POST Undefined s]))"

definition updateCloudflareRecordById :: "world \<Rightarrow> jsval \<Rightarrow> jsval \<Rightarrow> jsval outcome \<times> dns_request list" where
  "updateCloudflareRecordById w recordId selectedServer =
     (case selectedServer of
        Undefined \<Rightarrow> (Throws TypeError, [])
      | Str s \<Rightarrow> (readWrite (cfWrite w (recordBody PUT recordId s)), [recordBody PUT recordId s]))"

definition updateCloudflareRecord :: "world \<Rightarrow> jsval \<Rightarrow> unit outcome \<times> dns_request list" where
  "updateCloudflareRecord w selectedServer =
     (case getCloudflareRecordId w of
        Returns recordId \<Rightarrow>
          (let r = (if \<not> truthy recordId then createCloudflareRecord w selectedServer
                    else updateCloudflareRecordById w recordId selectedServer)
           in (bind (fst r) (\<lambda>i. Returns ()), snd r))
      | Throws e \<Rightarrow> (Throws e, [])
      | Diverges \<Rightarrow> (Diverges, []))"

section \<open>The process of \<open>src/main.js\<close>\<close>

text \<open>
  A run ends with an exit status or never ends. \<open>process.exit(1)\<close> in the \<open>catch\<close> block
  ends it with status 1; a \<open>main\<close> that returns ends it with status 0.
\<close>

datatype ending = Exit nat | Hang

definition ending_of :: "unit outcome \<Rightarrow> ending" where
  "ending_of r = (case r of Returns u \<Rightarrow> Exit 0 | Throws e \<Rightarrow> Exit 1 | Diverges \<Rightarrow> Hang)"

definition main :: "world \<Rightarrow> ending \<times> dns_request list" where
  "main w =
     (case bind (getKmsServersFromIssue (issueFetch w)) (validateKmsServers (execNc w)) of
        Returns validKmsServers \<Rightarrow>
          if length validKmsServers > 0 then
            (let r = updateCloudflareRecord w (selectKmsServer validKmsServers)
             in (ending_of (fst r), snd r))
          else (Exit 0, [])
      | Throws e \<Rightarrow> (Exit 1, [])
      | Diverges \<Rightarrow> (Hang, []))"

section \<open>The script with the record type, first of \<open>src/unnamed/part_001\<close>\<close>

text \<open>
  This script has functions of the same names as \<open>src/main.js\<close>; its functions carry the
  suffix \<open>_p1\<close>.
\<close>

text \<open>
  \<open>parseInt(s, 10)\<close> on a string that starts with a digit: the value of the leading
  digits; \<open>None\<close> is \<open>NaN\<close>.
\<close>

definition parseInt10 :: "jsstring \<Rightarrow> nat option" where
  "parseInt10 s =
     (case takeWhile isDigit s of
        [] \<Rightarrow> None
      | d # ds \<Rightarrow> Some (foldl (\<lambda>n c. 10 * n + (c - cu CHR ''0'')) 0 (d # ds)))"

text \<open>\<open>/^(\d{1,3})\.(\d{1,3})\.(\d{1,3})\.(\d{1,3})$/\<close>\<close>

definition ipv4Regex :: regex where
  "ipv4Regex =
     Seq BeginA (Seq (Grp 1 (Rep13 (Cls isDigit))) (Seq (Chr CHR ''.'')
    (Seq (Grp 2 (Rep13 (Cls isDigit))) (Seq (Chr CHR ''.'')
    (Seq (Grp 3 (Rep13 (Cls isDigit))) (Seq (Chr CHR ''.'')
    (Seq (Grp 4 (Rep13 (Cls isDigit))) EndA)))))))"

definition isValidIpAddress :: "jsstring \<Rightarrow> bool" where
  "isValidIpAddress s =
     (if \<not> test ipv4Regex s then False
      else list_all (\<lambda>part. case parseInt10 part of None \<Rightarrow> False | Some n \<Rightarrow> n \<le> 255)
             (split (cu CHR ''.'') s))"

text \<open>
  \<open>text.match(pattern)\<close> for a pattern with the \<open>g\<close> flag: the matched substrings from
  left to right (no match, \<open>null\<close> in the source, is the empty list here); after an empty
  match the search goes on one code unit further.
\<close>

function matchLoop :: "regex \<Rightarrow> jsstring \<Rightarrow> nat \<Rightarrow> jsstring list" where
  "matchLoop r t lastIndex =
     (case regExpExec r t lastIndex of
        None \<Rightarrow> []
      | Some (s, y) \<Rightarrow>
          substring t s (fst y) # matchLoop r t (if fst y = s then Suc (fst y) else fst y))"
  by pat_completeness auto
termination
proof (relation "measure (\<lambda>(r, t, k). Suc (length t) - k)")
  show "wf (measure (\<lambda>(r, t, k). Suc (length t) - k))" by simp
next
  fix r t lastIndex z s y
  assume ex: "regExpExec r t lastIndex = Some z" and z: "(s, y) = z"
  have star: "\<And>f n x y. (\<And>x y. y \<in> set (f x) \<Longrightarrow> fst x \<le> fst y)
                 \<Longrightarrow> y \<in> set (star_iter f n x) \<Longrightarrow> fst x \<le> fst y"
  proof -
    fix f :: "mstate \<Rightarrow> mstate list" and n x y
    assume f: "\<And>x y. y \<in> set (f x) \<Longrightarrow> fst x \<le> fst y"
    show "y \<in> set (star_iter f n x) \<Longrightarrow> fst x \<le> fst y"
    proof (induction n arbitrary: x)
      case 0
      then show ?case by simp
    next
      case (Suc n)
      from Suc.prems consider "y = x"
        | x' where "x' \<in> set (f x)" "y \<in> set (star_iter f n x')"
        by auto
      then show ?case
      proof cases
        case 1
        then show ?thesis by simp
      next
        case 2
        from f [OF 2(1)] Suc.IH [OF 2(2)] show ?thesis by simp
      qed
    qed
  qed
  have mono: "\<And>x y. y \<in> set (m r t x) \<Longrightarrow> fst x \<le> fst y"
  proof (induction r)
    case (Seq a b)
    from Seq.prems obtain x' where "x' \<in> set (m a t x)" "y \<in> set (m b t x')" by auto
    with Seq.IH show ?case by (meson le_trans)
  next
    case (Star a)
    have "\<And>x y. y \<in> set (m a t (reset (groups a) x)) \<Longrightarrow> fst x \<le> fst y"
      using Star.IH by (fastforce simp: reset_def)
    from star [of "\<lambda>y. m a t (reset (groups a) y)", OF this] Star.prems
    show ?case by simp
  qed (auto split: if_splits)
  have found: "\<And>k. regExpExec r t k = Some (s, y) \<Longrightarrow> k \<le> s \<and> s \<le> length t \<and> y \<in> set (m r t (s, Map.empty))"
  proof -
    fix k
    show "regExpExec r t k = Some (s, y) \<Longrightarrow> k \<le> s \<and> s \<le> length t \<and> y \<in> set (m r t (s, Map.empty))"
    proof (induction r t k rule: regExpExec.induct)
      case (1 r t k)
      show ?case
      proof (cases "length t < k")
        case True
        with "1.prems" show ?thesis by simp
      next
        case False
        show ?thesis
        proof (cases "m r t (k, Map.empty)")
          case Nil
          with False "1.prems" have "regExpExec r t (Suc k) = Some (s, y)" by simp
          from "1.IH" [OF False Nil this] show ?thesis by simp
        next
          case (Cons y' ys)
          with False "1.prems" have "s = k" "y = y'" by simp_all
          with False Cons show ?thesis by simp
        qed
      qed
    qed
  qed
  from ex z have "regExpExec r t lastIndex = Some (s, y)" by simp
  from found [OF this]
  have "lastIndex \<le> s" "s \<le> length t" "y \<in> set (m r t (s, Map.empty))" by simp_all
  moreover from mono [OF \<open>y \<in> set (m r t (s, Map.empty))\<close>] have "s \<le> fst y" by simp
  ultimately
  show "((r, t, if fst y = s then Suc (fst y) else fst y), (r, t, lastIndex))
          \<in> measure (\<lambda>(r, t, k). Suc (length t) - k)"
    by auto
qed

definition matchAll :: "regex \<Rightarrow> jsstring \<Rightarrow> jsstring list" where
  "matchAll r t = matchLoop r t 0"

text \<open>The two patterns of \<open>fetchKmsServersFromGithub\<close>: \<open>/(\S+:\d+)/g\<close> and \<open>/kms\S*\.\S+/g\<close>.\<close>

definition patterns_p1 :: "regex list" where
  "patterns_p1 =
     [Grp 1 (Seq (Plus (Cls (\<lambda>c. \<not> isSpace c))) (Seq (Chr CHR '':'') (Plus (Cls isDigit)))),
      Seq (lit (str ''kms'')) (Seq (Star (Cls (\<lambda>c. \<not> isSpace c)))
        (Seq (Chr CHR ''.'') (Plus (Cls (\<lambda>c. \<not> isSpace c)))))]"

text \<open>\<open>issueData.body.match\<close> throws a TypeError when the body is \<open>null\<close>.\<close>

definition fetchKmsServersFromGithub :: "issue_response \<Rightarrow> jsstring list outcome" where
  "fetchKmsServersFromGithub resp =
     tryCatch
       (case resp of
          FetchRejects \<Rightarrow> Throws Error
        | Response ok json \<Rightarrow>
            if \<not> ok then Throws Error
            else (case json of
                    JsonFails \<Rightarrow> Throws Error
                  | Issue Undefined \<Rightarrow> Throws TypeError
                  | Issue (Str body) \<Rightarrow>
                      Returns (concat (map (\<lambda>pattern. matchAll pattern body) patterns_p1))))
       (\<lambda>error. Returns [])"

text \<open>
  The candidates of \<open>main\<close>: the fetched list, replaced by the literal list when it is
  empty.
\<close>

definition candidates_p1 :: "jsstring list \<Rightarrow> jsstring list" where
  "candidates_p1 kmsServers =
     (if length kmsServers = 0 then
        [str ''kms.hmg.pw:1688'',
         str ''kms.xingez.me:1688'',
         str ''140.246.142.164:1688'',
         str ''kms.03k.org:1688'',
         str ''kms.chinancce.com:1688'',
         str ''kms.ddns.net:1688'',
         str ''kms.ddz.red:1688'',
         str ''kms.lotro.cc:1688'',
         str ''kms.luody.info:1688'',
         str ''kms.moeclub.org:1688'',
         str ''kms8.MSGuides.com:1688'',
         str ''xykz.f3322.org:1688'',
         str ''kms.cangshui.net:1688'']
      else kmsServers)"

text \<open>\<open>validateKmsServers\<close> of this script: a server is valid when \<open>execPromise\<close> resolves.\<close>

fun validateLoop_p1 :: "transport \<Rightarrow> jsstring list \<Rightarrow> jsstring list \<Rightarrow> jsstring list outcome" where
  "validateLoop_p1 exec [] validServers = Returns validServers"
| "validateLoop_p1 exec (server # rest) validServers =
     bind (tryCatch (case exec (ncCommand server) of
                       Inl e \<Rightarrow> Throws e
                     | Inr out \<Rightarrow> Returns (validServers @ [server]))
                    (\<lambda>error. Returns validServers))
          (validateLoop_p1 exec rest)"

definition validateKmsServers_p1 :: "transport \<Rightarrow> jsstring list \<Rightarrow> jsstring list outcome" where
  "validateKmsServers_p1 exec servers = validateLoop_p1 exec servers []"

text \<open>
  The answers of the DNS provider to this script are read from the body. A lookup is
  rejected (by \<open>fetch\<close> or by \<open>json()\<close>) or answers with the \<open>success\<close> property and the
  \<open>result\<close> property, \<open>None\<close> when it is missing and otherwise the \<open>id\<close> of each entry.
  A write is rejected or answers with the \<open>success\<close> property and, when there is a
  \<open>result\<close> object, the \<open>id\<close> of it.
\<close>

datatype lookup_p1 = LookupRejects_p1 | LookupAnswer bool "jsval list option"

record world_p1 =
  issueFetch_p1 :: issue_response
  execNc_p1 :: transport
  cfCheck :: lookup_p1
  cfWrite_p1 :: "dns_request \<Rightarrow> write_response"
  cfVerify :: lookup_p1

definition recordData :: "http_method \<Rightarrow> jsval \<Rightarrow> jsval \<Rightarrow> jsstring \<Rightarrow> dns_request" where
  "recordData meth rid serverHost recordType =
     \<lparr> req_method = meth, record_id = rid,
       rtype = recordType,
       name = dnsRecordName,
       content = serverHost,
       ttl = 120,
       proxied = False \<rparr>"

definition updateCloudflareRecord_p1 ::
  "world_p1 \<Rightarrow> jsval \<Rightarrow> jsstring \<Rightarrow> unit outcome \<times> dns_request list" where
  "updateCloudflareRecord_p1 w serverHost recordType =
     (case cfCheck w of
        LookupRejects_p1 \<Rightarrow> (Throws Error, [])
      | LookupAnswer success result \<Rightarrow>
          if \<not> success then (Throws Error, [])
          else
            (case result of
               None \<Rightarrow> (Throws Error, [])
             | Some ids \<Rightarrow>
                 (let req = (case ids of
                               [] \<Rightarrow> recordData POST Undefined serverHost recordType
                             | i # rest \<Rightarrow> recordData PUT i serverHost recordType)
                  in (case cfWrite_p1 w req of
                        WriteRejects \<Rightarrow> Throws Error
                      | WriteResponse written written_id \<Rightarrow>
                          if \<not> written then Throws Error
                          else (case written_id of
                                  None \<Rightarrow> Throws Error
                                | Some i \<Rightarrow>
                                    (case cfVerify w of
                                       LookupRejects_p1 \<Rightarrow> Throws Error
                                     | LookupAnswer verified found \<Rightarrow>
                                         if \<not> verified then Returns ()
                                         else (case found of
                                                 None \<Rightarrow> Throws Error
                                               | Some entries \<Rightarrow> Returns ()))),
                      [req]))))"

definition main_p1 :: "world_p1 \<Rightarrow> ending \<times> dns_request list" where
  "main_p1 w =
     (case bind (fetchKmsServersFromGithub (issueFetch_p1 w))
             (\<lambda>kmsServers. validateKmsServers_p1 (execNc_p1 w) (candidates_p1 kmsServers)) of
        Returns validServers \<Rightarrow>
          if length validServers = 0 then (Exit 1, [])
          else
            (case idx validServers 0 of
               Undefined \<Rightarrow> (Exit 1, [])
             | Str selectedServer \<Rightarrow>
                 (let serverHost = idx (split_colon selectedServer) 0;
                      recordType = (if isValidIpAddress (toString serverHost) then str ''A''
                                    else str ''CNAME'');
                      r = updateCloudflareRecord_p1 w serverHost recordType
                  in (ending_of (fst r), snd r)))
      | Throws e \<Rightarrow> (Exit 1, [])
      | Diverges \<Rightarrow> (Hang, []))"

section \<open>The TCP probe, later scripts of \<open>src/unnamed/part_001\<close>\<close>

text \<open>
  What happens first on the socket of \<open>testKmsServer\<close>: \<open>socket.connect\<close> refuses its
  arguments and throws inside the promise executor, the connect callback runs, the
  \<open>error\<close> event is emitted, or the five-second timer expires.
\<close>

datatype socket_error = Refused | Unreachable | DnsFailure | Reset

datatype socket_event = BadArguments | Connected | ErrorEvent socket_error | TimerExpires

definition testKmsServer :: "(jsstring \<Rightarrow> socket_event) \<Rightarrow> jsstring \<Rightarrow> bool outcome" where
  "testKmsServer sock serverAddress =
     (case sock serverAddress of
        BadArguments \<Rightarrow> Throws Error
      | Connected \<Rightarrow> Returns True
      | ErrorEvent e \<Rightarrow> Returns False
      | TimerExpires \<Rightarrow> Returns False)"

text \<open>
  The probing loop of \<open>main\<close> in these scripts:
  \<open>for (const server of kmsServers) { if (await testKmsServer(server)) validKmsServers.push(server) }\<close>.
\<close>

fun testLoop :: "(jsstring \<Rightarrow> socket_event) \<Rightarrow> jsstring list \<Rightarrow> jsstring list \<Rightarrow> jsstring list outcome" where
  "testLoop sock [] validKmsServers = Returns validKmsServers"
| "testLoop sock (server # rest) validKmsServers =
     bind (testKmsServer sock server)
       (\<lambda>isValid. testLoop sock rest (if isValid then validKmsServers @ [server] else validKmsServers))"

section \<open>The words of the specification\<close>

text \<open>The fallback list as the specification documents it.\<close>

definition documentedFallback :: "jsstring list" where
  "documentedFallback =
     [str ''kms.hmg.pw:1688'', str ''kms.xingez.me:1688'', str ''140.246.142.164:1688'',
      str ''kms.03k.org:1688'', str ''kms.chinancce.com:1688'', str ''kms.ddns.net:1688'',
      str ''kms.ddz.red:1688'', str ''kms.lotro.cc:1688'', str ''kms.luody.info:1688'',
      str ''kms.moeclub.org:1688'', str ''kms8.msguides.com:1688'', str ''xykz.f3322.org:1688'',
      str ''kms.cangshui.net:1688'']"

text \<open>Letters in lower case, the reading of a host name that ignores case.\<close>

definition lowerAscii :: "jsstring \<Rightarrow> jsstring" where
  "lowerAscii s = map (\<lambda>c. if cu CHR ''A'' \<le> c \<and> c \<le> cu CHR ''Z'' then c + 32 else c) s"

section \<open>Concrete surroundings\<close>

text \<open>
  Transports on which exactly one or two command lines succeed, silently; surroundings in which
  the issue cannot be fetched and no server answers; and surroundings in which the issue
  cannot be fetched and only \<open>140.246.142.164:1688\<close> answers. The DNS provider knows no
  record yet and accepts every write.
\<close>

definition acceptOnly :: "jsstring \<Rightarrow> transport" where
  "acceptOnly command = (\<lambda>c. if c = command then Inr ([], []) else Inl Error)"

definition acceptEither :: "jsstring \<Rightarrow> jsstring \<Rightarrow> transport" where
  "acceptEither c1 c2 = (\<lambda>c. if c = c1 \<or> c = c2 then Inr ([], []) else Inl Error)"

definition deadWorld :: world where
  "deadWorld = \<lparr> issueFetch = FetchRejects, execNc = (\<lambda>c. Inl Error),
                 cfLookup = LookupResponse True (Some []),
                 cfWrite = (\<lambda>r. WriteResponse True (Some (Str (str ''id'')))) \<rparr>"

definition deadWorld_p1 :: world_p1 where
  "deadWorld_p1 = \<lparr> issueFetch_p1 = FetchRejects, execNc_p1 = (\<lambda>c. Inl Error),
                 cfCheck = LookupAnswer True (Some []),
                 cfWrite_p1 = (\<lambda>r. WriteResponse True (Some (Str (str ''id'')))),
                 cfVerify = LookupAnswer True (Some []) \<rparr>"

definition ipWorld :: world where
  "ipWorld = \<lparr> issueFetch = FetchRejects,
               execNc = acceptOnly (str ''nc -zv -w 3 140.246.142.164 1688''),
               cfLookup = LookupResponse True (Some []),
               cfWrite = (\<lambda>r. WriteResponse True (Some (Str (str ''id'')))) \<rparr>"

definition ipWorld_p1 :: world_p1 where
  "ipWorld_p1 = \<lparr> issueFetch_p1 = FetchRejects,
               execNc_p1 = acceptOnly (str ''nc -zv -w 3 140.246.142.164 1688''),
               cfCheck = LookupAnswer True (Some []),
               cfWrite_p1 = (\<lambda>r. WriteResponse True (Some (Str (str ''id'')))),
               cfVerify = LookupAnswer True (Some []) \<rparr>"

section \<open>The language of a pattern\<close>

text \<open>
  The words a pattern can consume, assertions taken as the empty word, and the bodies of
  the capture groups of a pattern. Every match of the matcher consumes a word of the
  language, and every capture holds a word of the language of its group.
\<close>

inductive lang :: "regex \<Rightarrow> jsstring \<Rightarrow> bool" where
  lang_Cls: "p c \<Longrightarrow> lang (Cls p) [c]"
| lang_Eps: "lang Eps []"
| lang_Seq: "lang a u \<Longrightarrow> lang b v \<Longrightarrow> lang (Seq a b) (u @ v)"
| lang_AltL: "lang a u \<Longrightarrow> lang (Alt a b) u"
| lang_AltR: "lang b u \<Longrightarrow> lang (Alt a b) u"
| lang_StarNil: "lang (Star a) []"
| lang_StarStep: "lang a u \<Longrightarrow> lang (Star a) v \<Longrightarrow> lang (Star a) (u @ v)"
| lang_Grp: "lang a u \<Longrightarrow> lang (Grp n a) u"
| lang_WordB: "lang WordB []"
| lang_BeginA: "lang BeginA []"
| lang_EndA: "lang EndA []"

primrec groupBodies :: "regex \<Rightarrow> (nat \<times> regex) set" where
  "groupBodies (Cls p) = {}"
| "groupBodies Eps = {}"
| "groupBodies (Seq a b) = groupBodies a \<union> groupBodies b"
| "groupBodies (Alt a b) = groupBodies a \<union> groupBodies b"
| "groupBodies (Star a) = groupBodies a"
| "groupBodies (Grp n a) = insert (n, a) (groupBodies a)"
| "groupBodies WordB = {}"
| "groupBodies BeginA = {}"
| "groupBodies EndA = {}"

section \<open>Tokens and endpoints as text\<close>

text \<open>
  An endpoint string of the shape \<open>host:port\<close>: one colon, before it a non-empty run of
  \<open>[a-zA-Z0-9.-]\<close>, after it a non-empty run of digits.
\<close>

definition endpointShape :: "jsstring \<Rightarrow> bool" where
  "endpointShape s =
     (case split_colon s of
        [h, p] \<Rightarrow> h \<noteq> [] \<and> list_all hostChar h \<and> p \<noteq> [] \<and> list_all isDigit p
      | _ \<Rightarrow> False)"

text \<open>
  The first state the matcher reports, the port that follows a host (the longest run of
  digits after a colon, when there is one), and a labelled token at the start of a text:
  the label \<open>kms\<close> or \<open>KMS\<close>, optional whitespace, a colon, optional whitespace and a
  character of a host.
\<close>

definition firstMatch :: "regex \<Rightarrow> jsstring \<Rightarrow> mstate \<Rightarrow> mstate option" where
  "firstMatch r t x = (case m r t x of [] \<Rightarrow> None | y # ys \<Rightarrow> Some y)"

definition tokenPort :: "jsstring \<Rightarrow> jsstring option" where
  "tokenPort rest =
     (case rest of
        [] \<Rightarrow> None
      | c # r \<Rightarrow> if c = cu CHR '':'' \<and> takeWhile isDigit r \<noteq> [] then Some (takeWhile isDigit r)
                 else None)"

definition labelledTokenAt :: "jsstring \<Rightarrow> bool" where
  "labelledTokenAt u =
     ((startsWith u (str ''kms'') \<or> startsWith u (str ''KMS''))
      \<and> (case dropWhile isSpace (drop 3 u) of
            [] \<Rightarrow> False
          | c # u' \<Rightarrow> c = cu CHR '':''
              \<and> (case dropWhile isSpace u' of [] \<Rightarrow> False | d # u'' \<Rightarrow> hostChar d)))"

text \<open>
  The matches that the loop \<open>while ((match = regex.exec(text)) !== null)\<close> visits from
  \<open>lastIndex\<close> on, each as the pair of \<open>match.index\<close> and the \<open>lastIndex\<close> that \<open>exec\<close>
  leaves, the end of the match. The list ends where the loop would not advance.
\<close>

function execAll :: "regex \<Rightarrow> jsstring \<Rightarrow> nat \<Rightarrow> (nat \<times> nat) list" where
  "execAll r t lastIndex =
     (case regExpExec r t lastIndex of
        None \<Rightarrow> []
      | Some (s, y) \<Rightarrow>
          if fst y \<le> lastIndex then [] else (s, fst y) # execAll r t (fst y))"
  by pat_completeness auto
termination
proof (relation "measure (\<lambda>(r, t, k). Suc (length t) - k)")
  show "wf (measure (\<lambda>(r, t, k). Suc (length t) - k))" by simp
next
  fix r t lastIndex z s y
  assume ex: "regExpExec r t lastIndex = Some z" and "\<not> fst y \<le> lastIndex"
  have "lastIndex \<le> length t"
  proof (rule ccontr)
    assume "\<not> lastIndex \<le> length t"
    then have "regExpExec r t lastIndex = None" by simp
    with ex show False by simp
  qed
  with \<open>\<not> fst y \<le> lastIndex\<close>
  show "((r, t, fst y), (r, t, lastIndex)) \<in> measure (\<lambda>(r, t, k). Suc (length t) - k)"
    by simp
qed

text \<open>The parts of the first pattern after the colon.\<close>

definition tokenRe :: regex where
  "tokenRe = Seq (Plus (Cls hostChar)) (Opt (Seq (Chr CHR '':'') (Plus (Cls isDigit))))"

definition tokenGrp :: regex where
  "tokenGrp = Grp 1 tokenRe"

definition portRe :: regex where
  "portRe = Seq (Chr CHR '':'') (Plus (Cls isDigit))"

text \<open>
  The Endpoint invariant in the words of the specification: the port is an integer in
  [1, 65535], and the host is a non-empty sequence of DNS labels or a dotted-quad IPv4
  literal.
\<close>

definition isDnsLabel :: "jsstring \<Rightarrow> bool" where
  "isDnsLabel l =
     (l \<noteq> [] \<and> list_all (\<lambda>c. alnum c \<or> c = cu CHR ''-'') l
      \<and> hd l \<noteq> cu CHR ''-'' \<and> last l \<noteq> cu CHR ''-'')"

definition hostInvariant :: "jsstring \<Rightarrow> bool" where
  "hostInvariant h =
     (h \<noteq> [] \<and> (list_all isDnsLabel (split (cu CHR ''.'') h) \<or> isValidIpAddress h))"

definition portInvariant :: "jsstring \<Rightarrow> bool" where
  "portInvariant p =
     (list_all isDigit p
      \<and> (case parseInt10 p of None \<Rightarrow> False | Some n \<Rightarrow> 1 \<le> n \<and> n \<le> 65535))"

definition endpointInvariant :: "jsstring \<Rightarrow> bool" where
  "endpointInvariant s =
     (case split_colon s of
        [h, p] \<Rightarrow> hostInvariant h \<and> portInvariant p
      | _ \<Rightarrow> False)"

section \<open>Measures of a pattern\<close>

text \<open>
  The least number of code units a match of the pattern consumes, and whether every match
  of the pattern defines capture \<open>n\<close>.
\<close>

primrec minlen :: "regex \<Rightarrow> nat" where
  "minlen (Cls p) = 1"
| "minlen Eps = 0"
| "minlen (Seq a b) = minlen a + minlen b"
| "minlen (Alt a b) = min (minlen a) (minlen b)"
| "minlen (Star a) = 0"
| "minlen (Grp n a) = minlen a"
| "minlen WordB = 0"
| "minlen BeginA = 0"
| "minlen EndA = 0"

primrec mustSet :: "nat \<Rightarrow> regex \<Rightarrow> bool" where
  "mustSet n (Cls p) = False"
| "mustSet n Eps = False"
| "mustSet n (Seq a b) = (mustSet n b \<or> (mustSet n a \<and> n \<notin> groups b))"
| "mustSet n (Alt a b) = (mustSet n a \<and> mustSet n b)"
| "mustSet n (Star a) = False"
| "mustSet n (Grp k a) = (k = n \<or> mustSet n a)"
| "mustSet n WordB = False"
| "mustSet n BeginA = False"
| "mustSet n EndA = False"


section \<open>Properties of the matcher\<close>

lemma star_iter_mono:
  assumes f: "\<And>x y. y \<in> set (f x) \<Longrightarrow> fst x \<le> fst y"
  shows "y \<in> set (star_iter f n x) \<Longrightarrow> fst x \<le> fst y"
proof (induction n arbitrary: x)
  case 0
  then show ?case by simp
next
  case (Suc n)
  from Suc.prems consider "y = x"
    | x' where "x' \<in> set (f x)" "y \<in> set (star_iter f n x')"
    by auto
  then show ?case
  proof cases
    case 1
    then show ?thesis by simp
  next
    case 2
    from f [OF 2(1)] Suc.IH [OF 2(2)] show ?thesis by simp
  qed
qed

lemma m_minlen: "y \<in> set (m r t x) \<Longrightarrow> fst x + minlen r \<le> fst y"
proof (induction r arbitrary: x y)
  case (Seq a b)
  from Seq.prems obtain x' where "x' \<in> set (m a t x)" "y \<in> set (m b t x')" by auto
  from Seq.IH(1) [OF this(1)] Seq.IH(2) [OF this(2)] show ?case by simp
next
  case (Alt a b)
  from Alt.prems have "y \<in> set (m a t x) \<or> y \<in> set (m b t x)" by simp
  then show ?case
  proof
    assume "y \<in> set (m a t x)"
    from Alt.IH(1) [OF this] show ?thesis by simp
  next
    assume "y \<in> set (m b t x)"
    from Alt.IH(2) [OF this] show ?thesis by simp
  qed
next
  case (Star a)
  have "\<And>x y. y \<in> set (m a t (reset (groups a) x)) \<Longrightarrow> fst x \<le> fst y"
  proof -
    fix x y assume "y \<in> set (m a t (reset (groups a) x))"
    from Star.IH [OF this] show "fst x \<le> fst y" by (simp add: reset_def)
  qed
  from star_iter_mono [of "\<lambda>y. m a t (reset (groups a) y)", OF this] Star.prems
  show ?case by simp
next
  case (Grp n a)
  from Grp.prems obtain y' where "y' \<in> set (m a t x)" "fst y = fst y'" by auto
  with Grp.IH [OF this(1)] show ?case by simp
qed (auto split: if_splits)

lemma m_mono: "y \<in> set (m r t x) \<Longrightarrow> fst x \<le> fst y"
  using m_minlen [of y r t x] by simp

lemma star_iter_bound:
  assumes f: "\<And>x y. y \<in> set (f x) \<Longrightarrow> fst x \<le> N \<Longrightarrow> fst y \<le> N"
  shows "y \<in> set (star_iter f n x) \<Longrightarrow> fst x \<le> N \<Longrightarrow> fst y \<le> N"
proof (induction n arbitrary: x)
  case 0
  then show ?case by simp
next
  case (Suc n)
  from Suc.prems(1) consider "y = x"
    | x' where "x' \<in> set (f x)" "y \<in> set (star_iter f n x')"
    by auto
  then show ?case
  proof cases
    case 1
    with Suc.prems show ?thesis by simp
  next
    case 2
    from f [OF 2(1) Suc.prems(2)] Suc.IH [OF 2(2)] show ?thesis by simp
  qed
qed

lemma m_bound: "y \<in> set (m r t x) \<Longrightarrow> fst x \<le> length t \<Longrightarrow> fst y \<le> length t"
proof (induction r arbitrary: x y)
  case (Seq a b)
  from Seq.prems obtain x' where "x' \<in> set (m a t x)" "y \<in> set (m b t x')" by auto
  from Seq.IH(1) [OF this(1) Seq.prems(2)] Seq.IH(2) [OF this(2)] show ?case by simp
next
  case (Alt a b)
  from Alt.prems have "y \<in> set (m a t x) \<or> y \<in> set (m b t x)" by simp
  then show ?case
  proof
    assume "y \<in> set (m a t x)"
    from Alt.IH(1) [OF this Alt.prems(2)] show ?thesis .
  next
    assume "y \<in> set (m b t x)"
    from Alt.IH(2) [OF this Alt.prems(2)] show ?thesis .
  qed
next
  case (Star a)
  have "\<And>x y. y \<in> set (m a t (reset (groups a) x)) \<Longrightarrow> fst x \<le> length t \<Longrightarrow> fst y \<le> length t"
  proof -
    fix x y assume "y \<in> set (m a t (reset (groups a) x))" "fst x \<le> length t"
    from Star.IH [OF this(1)] this(2) show "fst y \<le> length t" by (simp add: reset_def)
  qed
  from star_iter_bound [of "\<lambda>y. m a t (reset (groups a) y)", OF this] Star.prems
  show ?case by simp
next
  case (Grp n a)
  from Grp.prems obtain y' where "y' \<in> set (m a t x)" "fst y = fst y'" by auto
  with Grp.IH [OF this(1)] Grp.prems(2) show ?case by simp
qed (auto split: if_splits)

lemma star_iter_frame:
  assumes f: "\<And>x y. y \<in> set (f x) \<Longrightarrow> snd y n = snd x n"
  shows "y \<in> set (star_iter f k x) \<Longrightarrow> snd y n = snd x n"
proof (induction k arbitrary: x)
  case 0
  then show ?case by simp
next
  case (Suc k)
  from Suc.prems(1) consider "y = x"
    | x' where "x' \<in> set (f x)" "y \<in> set (star_iter f k x')"
    by auto
  then show ?case
  proof cases
    case 1
    then show ?thesis by simp
  next
    case 2
    from f [OF 2(1)] Suc.IH [OF 2(2)] show ?thesis by simp
  qed
qed

lemma m_frame: "y \<in> set (m r t x) \<Longrightarrow> n \<notin> groups r \<Longrightarrow> snd y n = snd x n"
proof (induction r arbitrary: x y)
  case (Seq a b)
  from Seq.prems obtain x' where "x' \<in> set (m a t x)" "y \<in> set (m b t x')" by auto
  from Seq.IH(1) [OF this(1)] Seq.IH(2) [OF this(2)] Seq.prems(2) show ?case by simp
next
  case (Alt a b)
  from Alt.prems have "y \<in> set (m a t x) \<or> y \<in> set (m b t x)" by simp
  then show ?case
  proof
    assume "y \<in> set (m a t x)"
    from Alt.IH(1) [OF this] Alt.prems(2) show ?thesis by simp
  next
    assume "y \<in> set (m b t x)"
    from Alt.IH(2) [OF this] Alt.prems(2) show ?thesis by simp
  qed
next
  case (Star a)
  have "\<And>x y. y \<in> set (m a t (reset (groups a) x)) \<Longrightarrow> snd y n = snd x n"
  proof -
    fix x y assume "y \<in> set (m a t (reset (groups a) x))"
    from Star.IH [OF this] Star.prems(2) show "snd y n = snd x n" by (simp add: reset_def)
  qed
  from star_iter_frame [of "\<lambda>y. m a t (reset (groups a) y)", OF this] Star.prems
  show ?case by simp
next
  case (Grp k a)
  from Grp.prems(1) obtain y' where y': "y' \<in> set (m a t x)" "snd y = (snd y')(k \<mapsto> (fst x, fst y'))"
    by auto
  from Grp.IH [OF y'(1)] Grp.prems(2) y'(2) show ?case by simp
qed (auto split: if_splits)

lemma m_mustSet: "y \<in> set (m r t x) \<Longrightarrow> mustSet n r \<Longrightarrow> snd y n \<noteq> None"
proof (induction r arbitrary: x y)
  case (Seq a b)
  from Seq.prems obtain x' where x': "x' \<in> set (m a t x)" "y \<in> set (m b t x')" by auto
  from Seq.prems(2) have "mustSet n b \<or> (mustSet n a \<and> n \<notin> groups b)" by simp
  then show ?case
  proof
    assume "mustSet n b"
    from Seq.IH(2) [OF x'(2) this] show ?thesis .
  next
    assume *: "mustSet n a \<and> n \<notin> groups b"
    from Seq.IH(1) [OF x'(1)] m_frame [OF x'(2)] * show ?thesis by simp
  qed
next
  case (Alt a b)
  from Alt.prems have "y \<in> set (m a t x) \<or> y \<in> set (m b t x)" by simp
  then show ?case
  proof
    assume "y \<in> set (m a t x)"
    from Alt.IH(1) [OF this] Alt.prems(2) show ?thesis by simp
  next
    assume "y \<in> set (m b t x)"
    from Alt.IH(2) [OF this] Alt.prems(2) show ?thesis by simp
  qed
next
  case (Grp k a)
  from Grp.prems(1) obtain y' where y': "y' \<in> set (m a t x)" "snd y = (snd y')(k \<mapsto> (fst x, fst y'))"
    by auto
  show ?case
  proof (cases "k = n")
    case True
    with y'(2) show ?thesis by simp
  next
    case False
    with Grp.prems(2) have "mustSet n a" by simp
    from Grp.IH [OF y'(1) this] y'(2) False show ?thesis by simp
  qed
qed (auto split: if_splits)

lemma regExpExec_found:
  "regExpExec r t k = Some (s, y) \<Longrightarrow>
     k \<le> s \<and> s \<le> length t \<and> y \<in> set (m r t (s, Map.empty))"
proof (induction r t k rule: regExpExec.induct)
  case (1 r t k)
  show ?case
  proof (cases "length t < k")
    case True
    with "1.prems" show ?thesis by simp
  next
    case False
    show ?thesis
    proof (cases "m r t (k, Map.empty)")
      case Nil
      with False "1.prems" have "regExpExec r t (Suc k) = Some (s, y)" by simp
      from "1.IH" [OF False Nil this] show ?thesis by simp
    next
      case (Cons y' ys)
      with False "1.prems" have "s = k" "y = y'" by simp_all
      with False Cons show ?thesis by simp
    qed
  qed
qed

lemma regExpExec_here:
  "k \<le> length t \<Longrightarrow> m r t (k, Map.empty) = y # ys \<Longrightarrow> regExpExec r t k = Some (k, y)"
  by simp

lemma regExpExec_skip:
  "k \<le> length t \<Longrightarrow> m r t (k, Map.empty) = [] \<Longrightarrow> regExpExec r t k = regExpExec r t (Suc k)"
  by simp

lemma regExpExec_first:
  "\<forall>j. k \<le> j \<and> j < s \<longrightarrow> m r t (j, Map.empty) = [] \<Longrightarrow> k \<le> s \<Longrightarrow> s \<le> length t \<Longrightarrow>
   m r t (s, Map.empty) = y # ys \<Longrightarrow> regExpExec r t k = Some (s, y)"
proof (induction "s - k" arbitrary: k)
  case 0
  then have "k = s" by simp
  with 0 show ?case by simp
next
  case (Suc d)
  then have "k < s" by simp
  with Suc.prems have "m r t (k, Map.empty) = []" "k \<le> length t" by simp_all
  then have "regExpExec r t k = regExpExec r t (Suc k)" by simp
  moreover have "regExpExec r t (Suc k) = Some (s, y)"
  proof (rule Suc.hyps(1))
    show "d = s - Suc k" using Suc.hyps(2) by simp
    show "\<forall>j. Suc k \<le> j \<and> j < s \<longrightarrow> m r t (j, Map.empty) = []" using Suc.prems(1) by simp
    show "Suc k \<le> s" using \<open>k < s\<close> by simp
    show "s \<le> length t" by fact
    show "m r t (s, Map.empty) = y # ys" by fact
  qed
  ultimately show ?case by simp
qed

lemma serverOf_returns:
  "isIp \<or> m1 \<noteq> Undefined \<Longrightarrow> \<exists>server. serverOf isIp m1 m2 = Returns server"
  by (cases m1) (auto simp: serverOf_def)

lemma matchGroup_defined: "snd y n \<noteq> None \<Longrightarrow> matchGroup t y n \<noteq> Undefined"
  by (auto simp: matchGroup_def)

lemma scanLoop_step:
  assumes "regExpExec r t k = Some (s, y)"
    and "serverOf isIp (matchGroup t y 1) (matchGroup t y 2) = Returns server"
    and "k < fst y"
  shows "scanLoop isIp r t k servers
           = scanLoop isIp r t (fst y)
               (if isLikelyKmsServer server then set_add servers server else servers)"
  using assms by (subst scanLoop.simps) simp

lemma scanLoop_stop:
  "regExpExec r t k = None \<Longrightarrow> scanLoop isIp r t k servers = Returns servers"
  by (subst scanLoop.simps) simp

lemma scanLoop_invariant:
  assumes wb: "1 \<le> minlen r" "isIp \<or> mustSet 1 r"
    and step: "\<And>s y server acc. y \<in> set (m r t (s, Map.empty)) \<Longrightarrow> s \<le> length t \<Longrightarrow>
                 serverOf isIp (matchGroup t y 1) (matchGroup t y 2) = Returns server \<Longrightarrow>
                 isLikelyKmsServer server \<Longrightarrow> I acc \<Longrightarrow> I (set_add acc server)"
  shows "I servers \<Longrightarrow> \<exists>vs. scanLoop isIp r t k servers = Returns vs \<and> I vs"
  using wb step
proof (induction isIp r t k servers rule: scanLoop.induct)
  case (1 isIp r t k servers)
  show ?case
  proof (cases "regExpExec r t k")
    case None
    with "1.prems"(1) show ?thesis by (simp add: scanLoop_stop)
  next
    case (Some z)
    obtain s y where z: "z = (s, y)" by (cases z)
    from Some z have ex: "regExpExec r t k = Some (s, y)" by simp
    from regExpExec_found [OF ex]
    have s: "k \<le> s" "s \<le> length t" and y: "y \<in> set (m r t (s, Map.empty))" by simp_all
    from m_minlen [OF y] "1.prems"(2) s(1) have adv: "k < fst y" by simp
    have "isIp \<or> matchGroup t y 1 \<noteq> Undefined"
      using "1.prems"(3) m_mustSet [OF y] matchGroup_defined by blast
    from serverOf_returns [OF this] obtain server
      where sv: "serverOf isIp (matchGroup t y 1) (matchGroup t y 2) = Returns server" by blast
    let ?acc = "if isLikelyKmsServer server then set_add servers server else servers"
    have acc: "I ?acc"
      using "1.prems"(1) "1.prems"(4) [OF y s(2) sv] by simp
    have "\<exists>vs. scanLoop isIp r t (fst y) ?acc = Returns vs \<and> I vs"
    proof (rule "1.IH" [OF Some _ sv _ acc "1.prems"(2) "1.prems"(3)])
      show "(s, y) = z" using z by simp
      show "\<not> fst y \<le> k" using adv by simp
      show "\<And>s y server acc. y \<in> set (m r t (s, Map.empty)) \<Longrightarrow> s \<le> length t \<Longrightarrow>
                 serverOf isIp (matchGroup t y 1) (matchGroup t y 2) = Returns server \<Longrightarrow>
                 isLikelyKmsServer server \<Longrightarrow> I acc \<Longrightarrow> I (set_add acc server)"
        by (rule "1.prems"(4))
    qed
    with scanLoop_step [OF ex sv adv] show ?thesis by simp
  qed
qed


section \<open>Properties of the extractor\<close>

lemma minlen_lit [simp]: "minlen (lit s) = length s"
  by (induction s) (simp_all add: lit_def)

lemma minlen_lit_i [simp]: "minlen (lit_i s) = length s"
  by (induction s) (simp_all add: lit_i_def)

lemma groups_lit [simp]: "groups (lit s) = {}"
  by (induction s) (simp_all add: lit_def)

lemma groups_lit_i [simp]: "groups (lit_i s) = {}"
  by (induction s) (simp_all add: lit_i_def)

lemma wb_kmsLabelRe: "1 \<le> minlen kmsLabelRe \<and> mustSet 1 kmsLabelRe"
  by (simp add: kmsLabelRe_def Plus_def Opt_def Chr_def str_def)

lemma wb_domainTokenRe: "1 \<le> minlen domainTokenRe \<and> mustSet 1 domainTokenRe"
  by (simp add: domainTokenRe_def domainRe_def Plus_def Opt_def Chr_def)

lemma wb_ipTokenRe: "1 \<le> minlen ipTokenRe"
  by (simp add: ipTokenRe_def quadRe_def Rep13_def Plus_def Opt_def Chr_def)

lemma wb_serverKeywordRe: "1 \<le> minlen serverKeywordRe \<and> mustSet 1 serverKeywordRe"
  by (simp add: serverKeywordRe_def domainRe_def Plus_def Opt_def Chr_def str_def)

lemma wb_regexPatterns:
  "p \<in> set regexPatterns \<Longrightarrow> 1 \<le> minlen (snd p) \<and> (fst p \<or> mustSet 1 (snd p))"
  using wb_kmsLabelRe wb_domainTokenRe wb_ipTokenRe wb_serverKeywordRe
  by (auto simp: regexPatterns_def)

lemma patternsLoop_invariant:
  assumes wb: "\<And>p. p \<in> set ps \<Longrightarrow> 1 \<le> minlen (snd p) \<and> (fst p \<or> mustSet 1 (snd p))"
    and step: "\<And>p s y server acc. p \<in> set ps \<Longrightarrow> y \<in> set (m (snd p) t (s, Map.empty)) \<Longrightarrow>
                 s \<le> length t \<Longrightarrow>
                 serverOf (fst p) (matchGroup t y 1) (matchGroup t y 2) = Returns server \<Longrightarrow>
                 isLikelyKmsServer server \<Longrightarrow> I acc \<Longrightarrow> I (set_add acc server)"
  shows "I servers \<Longrightarrow> \<exists>vs. patternsLoop ps t servers = Returns vs \<and> I vs"
  using wb step
proof (induction ps arbitrary: servers)
  case Nil
  then show ?case by simp
next
  case (Cons p ps)
  have "\<exists>vs. scanLoop (fst p) (snd p) t 0 servers = Returns vs \<and> I vs"
  proof (rule scanLoop_invariant [where I = I])
    have p: "p \<in> set (p # ps)" by simp
    from Cons.prems(2) [OF p] show "1 \<le> minlen (snd p)" "fst p \<or> mustSet 1 (snd p)" by blast+
    show "I servers" by fact
    fix s y server acc
    assume "y \<in> set (m (snd p) t (s, Map.empty))" "s \<le> length t"
      "serverOf (fst p) (matchGroup t y 1) (matchGroup t y 2) = Returns server"
      "isLikelyKmsServer server" "I acc"
    from Cons.prems(3) [OF p this] show "I (set_add acc server)" .
  qed
  then obtain vs where vs: "scanLoop (fst p) (snd p) t 0 servers = Returns vs" "I vs" by blast
  have "\<exists>ws. patternsLoop ps t vs = Returns ws \<and> I ws"
  proof (rule Cons.IH [OF vs(2)])
    fix q assume "q \<in> set ps"
    then have "q \<in> set (p # ps)" by simp
    then show "1 \<le> minlen (snd q) \<and> (fst q \<or> mustSet 1 (snd q))" by (rule Cons.prems(2))
  next
    fix q s y server acc
    assume "q \<in> set ps" and rest: "y \<in> set (m (snd q) t (s, Map.empty))" "s \<le> length t"
      "serverOf (fst q) (matchGroup t y 1) (matchGroup t y 2) = Returns server"
      "isLikelyKmsServer server" "I acc"
    then have "q \<in> set (p # ps)" by simp
    from Cons.prems(3) [OF this rest] show "I (set_add acc server)" .
  qed
  with vs(1) show ?case by simp
qed

lemma extract_patterns_total:
  "\<exists>servers. patternsLoop regexPatterns t [] = Returns servers"
proof -
  have "\<exists>vs. patternsLoop regexPatterns t [] = Returns vs \<and> True"
  proof (rule patternsLoop_invariant [where I = "\<lambda>vs. True"])
    fix p assume "p \<in> set regexPatterns"
    then show "1 \<le> minlen (snd p) \<and> (fst p \<or> mustSet 1 (snd p))" by (rule wb_regexPatterns)
  qed simp_all
  then show ?thesis by simp
qed

lemma set_set_add: "set (set_add servers server) = insert server (set servers)"
  by (auto simp: set_add_def)

lemma set_specificLoop:
  "set (specificLoop specs t servers)
     = set servers \<union> {s \<in> set specs. str_includes t (toString (idx (split_colon s) 0))}"
  by (induction specs arbitrary: servers) (auto simp: set_set_add)

lemma extract_total:
  "\<exists>servers. patternsLoop regexPatterns t [] = Returns servers
      \<and> extractKmsServers t = Returns (specificLoop specificServers t servers)"
  using extract_patterns_total [of t] by (auto simp: extractKmsServers_def)

lemma specific_hosts:
  "toString (idx (split_colon (str ''kms.hmg.pw:1688'')) 0) = str ''kms.hmg.pw''"
  "toString (idx (split_colon (str ''kms.xingez.me:1688'')) 0) = str ''kms.xingez.me''"
  "toString (idx (split_colon (str ''140.246.142.164:1688'')) 0) = str ''140.246.142.164''"
  by code_simp+

section \<open>Matches are words of the language\<close>

lemma substring_split:
  "i \<le> k \<Longrightarrow> k \<le> j \<Longrightarrow> substring t i j = substring t i k @ substring t k j"
proof -
  assume "i \<le> k" "k \<le> j"
  then have "j - i = (k - i) + (j - k)" by simp
  then have "take (j - i) (drop i t) = take (k - i) (drop i t) @ take (j - k) (drop (k - i) (drop i t))"
    by (simp only: take_add)
  with \<open>i \<le> k\<close> show ?thesis by (simp add: substring_def)
qed

lemma substring_one: "i < length t \<Longrightarrow> substring t i (Suc i) = [t ! i]"
  by (simp add: substring_def take_Suc_conv_app_nth hd_drop_conv_nth take_Suc)

lemma substring_empty [simp]: "substring t i i = []"
  by (simp add: substring_def)

lemma star_iter_lang:
  assumes f: "\<And>x y. y \<in> set (f x) \<Longrightarrow> fst x \<le> fst y \<and> lang a (substring t (fst x) (fst y))"
  shows "y \<in> set (star_iter f n x) \<Longrightarrow>
           fst x \<le> fst y \<and> lang (Star a) (substring t (fst x) (fst y))"
proof (induction n arbitrary: x)
  case 0
  then show ?case by (simp add: lang_StarNil)
next
  case (Suc n)
  from Suc.prems consider "y = x"
    | x' where "x' \<in> set (f x)" "y \<in> set (star_iter f n x')"
    by auto
  then show ?case
  proof cases
    case 1
    then show ?thesis by (simp add: lang_StarNil)
  next
    case 2
    from f [OF 2(1)] have a: "fst x \<le> fst x'" "lang a (substring t (fst x) (fst x'))" by simp_all
    from Suc.IH [OF 2(2)]
    have b: "fst x' \<le> fst y" "lang (Star a) (substring t (fst x') (fst y))" by simp_all
    from lang_StarStep [OF a(2) b(2)] substring_split [OF a(1) b(1), of t] a(1) b(1)
    show ?thesis by simp
  qed
qed

lemma m_lang: "y \<in> set (m r t x) \<Longrightarrow> lang r (substring t (fst x) (fst y))"
proof (induction r arbitrary: x y)
  case (Cls p)
  then show ?case by (auto simp: substring_one lang_Cls split: if_splits)
next
  case Eps
  then show ?case by (simp add: lang_Eps)
next
  case (Seq a b)
  from Seq.prems obtain x' where x': "x' \<in> set (m a t x)" "y \<in> set (m b t x')" by auto
  from lang_Seq [OF Seq.IH(1) [OF x'(1)] Seq.IH(2) [OF x'(2)]]
    substring_split [OF m_mono [OF x'(1)] m_mono [OF x'(2)], of t]
  show ?case by simp
next
  case (Alt a b)
  from Alt.prems have "y \<in> set (m a t x) \<or> y \<in> set (m b t x)" by simp
  then show ?case
  proof
    assume "y \<in> set (m a t x)"
    from Alt.IH(1) [OF this] show ?thesis by (rule lang_AltL)
  next
    assume "y \<in> set (m b t x)"
    from Alt.IH(2) [OF this] show ?thesis by (rule lang_AltR)
  qed
next
  case (Star a)
  have "\<And>x y. y \<in> set (m a t (reset (groups a) x)) \<Longrightarrow>
          fst x \<le> fst y \<and> lang a (substring t (fst x) (fst y))"
  proof -
    fix x y assume y: "y \<in> set (m a t (reset (groups a) x))"
    from Star.IH [OF y] m_mono [OF y]
    show "fst x \<le> fst y \<and> lang a (substring t (fst x) (fst y))" by (simp add: reset_def)
  qed
  from star_iter_lang [of "\<lambda>y. m a t (reset (groups a) y)", OF this] Star.prems
  show ?case by simp
next
  case (Grp n a)
  from Grp.prems obtain y' where "y' \<in> set (m a t x)" "fst y = fst y'" by auto
  with Grp.IH [OF this(1)] show ?case by (simp add: lang_Grp)
next
  case WordB
  then show ?case by (auto simp: lang_WordB split: if_splits)
next
  case BeginA
  then show ?case by (auto simp: lang_BeginA split: if_splits)
next
  case EndA
  then show ?case by (auto simp: lang_EndA split: if_splits)
qed

lemma star_iter_caps:
  assumes f: "\<And>x y. y \<in> set (f x) \<Longrightarrow> snd y n = Some ab \<Longrightarrow> snd x n = Some ab \<or> G"
  shows "y \<in> set (star_iter f k x) \<Longrightarrow> snd y n = Some ab \<Longrightarrow> snd x n = Some ab \<or> G"
proof (induction k arbitrary: x)
  case 0
  then show ?case by simp
next
  case (Suc k)
  from Suc.prems(1) consider "y = x"
    | x' where "x' \<in> set (f x)" "y \<in> set (star_iter f k x')"
    by auto
  then show ?case
  proof cases
    case 1
    with Suc.prems(2) show ?thesis by simp
  next
    case 2
    from Suc.IH [OF 2(2) Suc.prems(2)] f [OF 2(1)] show ?thesis by blast
  qed
qed

lemma m_caps:
  "y \<in> set (m r t x) \<Longrightarrow> snd y n = Some (a, b) \<Longrightarrow>
     snd x n = Some (a, b) \<or> (\<exists>body. (n, body) \<in> groupBodies r \<and> lang body (substring t a b))"
proof (induction r arbitrary: x y)
  case (Seq r1 r2)
  from Seq.prems obtain x' where x': "x' \<in> set (m r1 t x)" "y \<in> set (m r2 t x')" by auto
  from Seq.IH(2) [OF x'(2) Seq.prems(2)] Seq.IH(1) [OF x'(1)]
  show ?case by auto
next
  case (Alt r1 r2)
  from Alt.prems have "y \<in> set (m r1 t x) \<or> y \<in> set (m r2 t x)" by simp
  then show ?case
  proof
    assume "y \<in> set (m r1 t x)"
    from Alt.IH(1) [OF this Alt.prems(2)] show ?thesis by auto
  next
    assume "y \<in> set (m r2 t x)"
    from Alt.IH(2) [OF this Alt.prems(2)] show ?thesis by auto
  qed
next
  case (Star r1)
  let ?G = "\<exists>body. (n, body) \<in> groupBodies r1 \<and> lang body (substring t a b)"
  have "\<And>x y. y \<in> set (m r1 t (reset (groups r1) x)) \<Longrightarrow> snd y n = Some (a, b) \<Longrightarrow>
          snd x n = Some (a, b) \<or> ?G"
  proof -
    fix x y assume y: "y \<in> set (m r1 t (reset (groups r1) x))" "snd y n = Some (a, b)"
    from Star.IH [OF y] show "snd x n = Some (a, b) \<or> ?G"
      by (auto simp: reset_def split: if_splits)
  qed
  from star_iter_caps [of "\<lambda>y. m r1 t (reset (groups r1) y)" n "(a, b)" ?G, OF this] Star.prems
  show ?case by simp
next
  case (Grp k r1)
  from Grp.prems(1) obtain y' where y': "y' \<in> set (m r1 t x)"
    "fst y = fst y'" "snd y = (snd y')(k \<mapsto> (fst x, fst y'))"
    by auto
  show ?case
  proof (cases "n = k")
    case True
    with y'(3) Grp.prems(2) have "a = fst x" "b = fst y'" by simp_all
    with m_lang [OF y'(1)] True show ?thesis by auto
  next
    case False
    with y'(3) Grp.prems(2) have "snd y' n = Some (a, b)" by simp
    from Grp.IH [OF y'(1) this] show ?thesis by auto
  qed
qed (auto split: if_splits)

inductive_cases lang_ClsE: "lang (Cls p) w"
inductive_cases lang_EpsE: "lang Eps w"
inductive_cases lang_SeqE: "lang (Seq a b) w"
inductive_cases lang_AltE: "lang (Alt a b) w"
inductive_cases lang_GrpE: "lang (Grp n a) w"

lemma lang_Star_Cls_aux: "lang r w \<Longrightarrow> r = Star (Cls p) \<Longrightarrow> list_all p w"
proof (induction rule: lang.induct)
  case (lang_StarStep a u v)
  then have "lang (Cls p) u" "list_all p v" by simp_all
  then show ?case by (auto elim: lang_ClsE)
qed simp_all

lemma lang_Star_Cls: "lang (Star (Cls p)) w \<Longrightarrow> list_all p w"
  by (rule lang_Star_Cls_aux) simp_all

lemma lang_Plus_Cls: "lang (Plus (Cls p)) w \<Longrightarrow> w \<noteq> [] \<and> list_all p w"
  unfolding Plus_def by (auto elim!: lang_SeqE lang_ClsE dest: lang_Star_Cls)

lemma lang_Chr: "lang (Chr ch) w \<Longrightarrow> w = [cu ch]"
  unfolding Chr_def by (auto elim: lang_ClsE)

lemma lang_Opt: "lang (Opt r) w \<Longrightarrow> w = [] \<or> lang r w"
  unfolding Opt_def by (auto elim: lang_AltE lang_EpsE)

lemma lang_Rep13_Cls: "lang (Rep13 (Cls p)) w \<Longrightarrow> w \<noteq> [] \<and> list_all p w"
  unfolding Rep13_def by (auto elim!: lang_SeqE lang_ClsE dest!: lang_Opt)

lemma hostChar_simps:
  "alnum c \<Longrightarrow> hostChar c" "isDigit c \<Longrightarrow> hostChar c" "hostChar (cu CHR ''.'')"
  "\<not> hostChar (cu CHR '':'')" "\<not> isDigit (cu CHR '':'')"
  by (auto simp: hostChar_def alnum_def isDigit_def isAlpha_def cu_def)

lemma list_all_mono: "list_all p w \<Longrightarrow> (\<And>c. p c \<Longrightarrow> q c) \<Longrightarrow> list_all q w"
  by (induction w) auto

lemma alnum_all_hostChar: "list_all alnum w \<Longrightarrow> list_all hostChar w"
  by (induction w) (simp_all add: hostChar_simps)

lemma digit_all_hostChar: "list_all isDigit w \<Longrightarrow> list_all hostChar w"
  by (induction w) (simp_all add: hostChar_simps)

lemma lang_domainRe: "lang domainRe w \<Longrightarrow> w \<noteq> [] \<and> list_all hostChar w"
  unfolding domainRe_def
  by (auto elim!: lang_SeqE lang_ClsE dest!: lang_Plus_Cls lang_Chr lang_Star_Cls
           simp: hostChar_simps intro: alnum_all_hostChar)

lemma lang_quadRe: "lang quadRe w \<Longrightarrow> w \<noteq> [] \<and> list_all hostChar w"
  unfolding quadRe_def
  by (auto elim!: lang_SeqE dest!: lang_Rep13_Cls lang_Chr
           simp: hostChar_simps intro: digit_all_hostChar)

lemma lang_port: "lang (Opt (Seq (Chr CHR '':'') (Plus (Cls isDigit)))) w \<Longrightarrow>
   w = [] \<or> (\<exists>p. w = cu CHR '':'' # p \<and> p \<noteq> [] \<and> list_all isDigit p)"
  by (auto dest!: lang_Opt lang_Chr lang_Plus_Cls elim!: lang_SeqE)

section \<open>The shape of extracted endpoints\<close>

lemma groupBodies_lit [simp]: "groupBodies (lit s) = {}"
  by (induction s) (simp_all add: lit_def)

lemma groupBodies_lit_i [simp]: "groupBodies (lit_i s) = {}"
  by (induction s) (simp_all add: lit_i_def)

lemma split_no_sep: "sep \<notin> set s \<Longrightarrow> split sep s = [s]"
  by (induction s) auto

lemma split_append_sep: "sep \<notin> set h \<Longrightarrow> split sep (h @ sep # rest) = h # split sep rest"
  by (induction h) auto

lemma no_colon_host: "list_all hostChar h \<Longrightarrow> cu CHR '':'' \<notin> set h"
  using hostChar_simps(4) by (auto simp: list_all_iff)

lemma no_colon_digits: "list_all isDigit p \<Longrightarrow> cu CHR '':'' \<notin> set p"
  using hostChar_simps(5) by (auto simp: list_all_iff)

lemma endpointShape_intro:
  "h \<noteq> [] \<Longrightarrow> list_all hostChar h \<Longrightarrow> p \<noteq> [] \<Longrightarrow> list_all isDigit p
     \<Longrightarrow> endpointShape (h @ cu CHR '':'' # p)"
  by (simp add: endpointShape_def split_colon_def split_append_sep split_no_sep
                no_colon_host no_colon_digits)

lemma str_includes_single: "str_includes s [c] \<longleftrightarrow> c \<in> set s"
  by (induction s) auto

lemma str_colon: "str '':'' = [cu CHR '':'']"
  by (simp add: str_def)

lemma str_default_port: "str '':1688'' = cu CHR '':'' # str ''1688''"
  by (simp add: str_def)

lemma default_port_digits: "str ''1688'' \<noteq> [] \<and> list_all isDigit (str ''1688'')"
  by (simp add: str_def isDigit_def cu_def)

lemma serverOf_token_shape:
  assumes "w = h @ q" "h \<noteq> []" "list_all hostChar h"
    and "q = [] \<or> (\<exists>p. q = cu CHR '':'' # p \<and> p \<noteq> [] \<and> list_all isDigit p)"
    and "serverOf False (Str w) Undefined = Returns server"
  shows "endpointShape server"
  using assms(4)
proof
  assume "q = []"
  with assms(1,3) have "\<not> str_includes w (str '':'')"
    by (simp add: str_colon str_includes_single no_colon_host)
  with assms(5) have "server = w @ str '':1688''" by (simp add: serverOf_def)
  with assms(1,2,3) \<open>q = []\<close> default_port_digits show ?thesis
    by (simp add: str_default_port endpointShape_intro)
next
  assume "\<exists>p. q = cu CHR '':'' # p \<and> p \<noteq> [] \<and> list_all isDigit p"
  then obtain p where p: "q = cu CHR '':'' # p" "p \<noteq> []" "list_all isDigit p" by blast
  with assms(1) have "str_includes w (str '':'')"
    by (simp add: str_colon str_includes_single)
  with assms(5) have "server = w" by (simp add: serverOf_def)
  with assms(1,2,3) p show ?thesis by (simp add: endpointShape_intro)
qed

lemma serverOf_pair_shape:
  assumes "h \<noteq> []" "list_all hostChar h"
    and "m2 = Undefined \<or> (\<exists>p. m2 = Str p \<and> p \<noteq> [] \<and> list_all isDigit p)"
    and "serverOf isIp (Str h) m2 = Returns server"
  shows "endpointShape server"
  using assms(3)
proof
  assume "m2 = Undefined"
  with assms(1,2) have "\<not> str_includes h (str '':'')"
    by (simp add: str_colon str_includes_single no_colon_host)
  with assms(4) \<open>m2 = Undefined\<close> have "server = h @ str '':1688''"
    by (simp add: serverOf_def split: if_splits)
  with assms(1,2) default_port_digits show ?thesis
    by (simp add: str_default_port endpointShape_intro)
next
  assume "\<exists>p. m2 = Str p \<and> p \<noteq> [] \<and> list_all isDigit p"
  then obtain p where p: "m2 = Str p" "p \<noteq> []" "list_all isDigit p" by blast
  with assms(4) have "server = h @ cu CHR '':'' # p"
    by (simp add: serverOf_def str_colon split: if_splits)
  with assms(1,2) p show ?thesis by (simp add: endpointShape_intro)
qed

lemma group_of_match:
  assumes "y \<in> set (m r t (s, Map.empty))" "mustSet n r"
  shows "\<exists>a b body. snd y n = Some (a, b) \<and> matchGroup t y n = Str (substring t a b)
            \<and> (n, body) \<in> groupBodies r \<and> lang body (substring t a b)"
proof -
  from m_mustSet [OF assms] obtain a b where ab: "snd y n = Some (a, b)" by auto
  from m_caps [OF assms(1) ab] obtain body
    where "(n, body) \<in> groupBodies r" "lang body (substring t a b)" by auto
  with ab show ?thesis by (auto simp: matchGroup_def)
qed

lemma optional_group_of_match:
  assumes "y \<in> set (m r t (s, Map.empty))"
  shows "matchGroup t y n = Undefined
       \<or> (\<exists>a b body. matchGroup t y n = Str (substring t a b)
            \<and> (n, body) \<in> groupBodies r \<and> lang body (substring t a b))"
proof (cases "snd y n")
  case None
  then show ?thesis by (simp add: matchGroup_def)
next
  case (Some ab)
  obtain a b where "ab = (a, b)" by (cases ab)
  with Some have ab: "snd y n = Some (a, b)" by simp
  from m_caps [OF assms(1) ab] obtain body
    where "(n, body) \<in> groupBodies r" "lang body (substring t a b)" by auto
  with ab show ?thesis by (auto simp: matchGroup_def)
qed

lemma absent_group_of_match:
  assumes "y \<in> set (m r t (s, Map.empty))" "n \<notin> groups r"
  shows "matchGroup t y n = Undefined"
  using m_frame [OF assms] by (simp add: matchGroup_def)

lemma lang_token:
  assumes "lang (Seq (Plus (Cls hostChar)) (Opt (Seq (Chr CHR '':'') (Plus (Cls isDigit))))) w"
  shows "\<exists>h q. w = h @ q \<and> h \<noteq> [] \<and> list_all hostChar h
           \<and> (q = [] \<or> (\<exists>p. q = cu CHR '':'' # p \<and> p \<noteq> [] \<and> list_all isDigit p))"
  using assms by (auto elim!: lang_SeqE dest!: lang_Plus_Cls lang_port)

lemma lang_domain_token:
  assumes "lang (Seq domainRe (Opt (Seq (Chr CHR '':'') (Plus (Cls isDigit))))) w"
  shows "\<exists>h q. w = h @ q \<and> h \<noteq> [] \<and> list_all hostChar h
           \<and> (q = [] \<or> (\<exists>p. q = cu CHR '':'' # p \<and> p \<noteq> [] \<and> list_all isDigit p))"
  using assms by (auto elim!: lang_SeqE dest!: lang_domainRe lang_port)

lemma mustSet_ipTokenRe: "mustSet 1 ipTokenRe"
  by (simp add: ipTokenRe_def quadRe_def Rep13_def Plus_def Opt_def Chr_def)

lemma shape_kmsLabelRe:
  assumes "y \<in> set (m kmsLabelRe t (s, Map.empty))"
    and "serverOf False (matchGroup t y 1) (matchGroup t y 2) = Returns server"
  shows "endpointShape server"
proof -
  from group_of_match [OF assms(1), where n = 1] wb_kmsLabelRe
  obtain a b body where g: "matchGroup t y 1 = Str (substring t a b)"
    "(1, body) \<in> groupBodies kmsLabelRe" "lang body (substring t a b)" by blast
  from g(2) have "body = Seq (Plus (Cls hostChar)) (Opt (Seq (Chr CHR '':'') (Plus (Cls isDigit))))"
    by (simp add: kmsLabelRe_def Plus_def Opt_def Chr_def)
  with g(3) lang_token obtain h q where hq: "substring t a b = h @ q" "h \<noteq> []" "list_all hostChar h"
    "q = [] \<or> (\<exists>p. q = cu CHR '':'' # p \<and> p \<noteq> [] \<and> list_all isDigit p)" by blast
  have "matchGroup t y 2 = Undefined"
    by (rule absent_group_of_match [OF assms(1)])
       (simp add: kmsLabelRe_def Plus_def Opt_def Chr_def)
  with assms(2) g(1) have "serverOf False (Str (substring t a b)) Undefined = Returns server"
    by simp
  from serverOf_token_shape [OF hq this] show ?thesis .
qed

lemma shape_serverKeywordRe:
  assumes "y \<in> set (m serverKeywordRe t (s, Map.empty))"
    and "serverOf False (matchGroup t y 1) (matchGroup t y 2) = Returns server"
  shows "endpointShape server"
proof -
  from group_of_match [OF assms(1), where n = 1] wb_serverKeywordRe
  obtain a b body where g: "matchGroup t y 1 = Str (substring t a b)"
    "(1, body) \<in> groupBodies serverKeywordRe" "lang body (substring t a b)" by blast
  from g(2) have "body = Seq domainRe (Opt (Seq (Chr CHR '':'') (Plus (Cls isDigit))))"
    by (simp add: serverKeywordRe_def domainRe_def Plus_def Opt_def Chr_def)
  with g(3) lang_domain_token obtain h q where hq: "substring t a b = h @ q" "h \<noteq> []"
    "list_all hostChar h"
    "q = [] \<or> (\<exists>p. q = cu CHR '':'' # p \<and> p \<noteq> [] \<and> list_all isDigit p)" by blast
  have "matchGroup t y 2 = Undefined"
    by (rule absent_group_of_match [OF assms(1)])
       (simp add: serverKeywordRe_def domainRe_def Plus_def Opt_def Chr_def)
  with assms(2) g(1) have "serverOf False (Str (substring t a b)) Undefined = Returns server"
    by simp
  from serverOf_token_shape [OF hq this] show ?thesis .
qed

lemma shape_domainTokenRe:
  assumes "y \<in> set (m domainTokenRe t (s, Map.empty))"
    and "serverOf False (matchGroup t y 1) (matchGroup t y 2) = Returns server"
  shows "endpointShape server"
proof -
  from group_of_match [OF assms(1), where n = 1] wb_domainTokenRe
  obtain a b body where g: "matchGroup t y 1 = Str (substring t a b)"
    "(1, body) \<in> groupBodies domainTokenRe" "lang body (substring t a b)" by blast
  from g(2) have "body = domainRe"
    by (simp add: domainTokenRe_def domainRe_def Plus_def Opt_def Chr_def)
  with g(3) lang_domainRe have h: "substring t a b \<noteq> []" "list_all hostChar (substring t a b)"
    by blast+
  from optional_group_of_match [OF assms(1), where n = 2]
  have "matchGroup t y 2 = Undefined
      \<or> (\<exists>p. matchGroup t y 2 = Str p \<and> p \<noteq> [] \<and> list_all isDigit p)"
  proof
    assume "matchGroup t y 2 = Undefined"
    then show ?thesis by simp
  next
    assume "\<exists>a b body. matchGroup t y 2 = Str (substring t a b)
            \<and> (2, body) \<in> groupBodies domainTokenRe \<and> lang body (substring t a b)"
    then obtain a' b' body' where g2: "matchGroup t y 2 = Str (substring t a' b')"
      "(2, body') \<in> groupBodies domainTokenRe" "lang body' (substring t a' b')" by blast
    from g2(2) have "body' = Plus (Cls isDigit)"
      by (simp add: domainTokenRe_def domainRe_def Plus_def Opt_def Chr_def)
    with g2(3) lang_Plus_Cls have "substring t a' b' \<noteq> [] \<and> list_all isDigit (substring t a' b')"
      by blast
    with g2(1) show ?thesis by simp
  qed
  from serverOf_pair_shape [OF h this] assms(2) g(1) show ?thesis by simp
qed

lemma shape_ipTokenRe:
  assumes "y \<in> set (m ipTokenRe t (s, Map.empty))"
    and "serverOf True (matchGroup t y 1) (matchGroup t y 2) = Returns server"
  shows "endpointShape server"
proof -
  from group_of_match [OF assms(1), where n = 1] mustSet_ipTokenRe
  obtain a b body where g: "matchGroup t y 1 = Str (substring t a b)"
    "(1, body) \<in> groupBodies ipTokenRe" "lang body (substring t a b)" by blast
  from g(2) have "body = quadRe"
    by (simp add: ipTokenRe_def quadRe_def Rep13_def Plus_def Opt_def Chr_def)
  with g(3) lang_quadRe have h: "substring t a b \<noteq> []" "list_all hostChar (substring t a b)"
    by blast+
  from optional_group_of_match [OF assms(1), where n = 2]
  have "matchGroup t y 2 = Undefined
      \<or> (\<exists>p. matchGroup t y 2 = Str p \<and> p \<noteq> [] \<and> list_all isDigit p)"
  proof
    assume "matchGroup t y 2 = Undefined"
    then show ?thesis by simp
  next
    assume "\<exists>a b body. matchGroup t y 2 = Str (substring t a b)
            \<and> (2, body) \<in> groupBodies ipTokenRe \<and> lang body (substring t a b)"
    then obtain a' b' body' where g2: "matchGroup t y 2 = Str (substring t a' b')"
      "(2, body') \<in> groupBodies ipTokenRe" "lang body' (substring t a' b')" by blast
    from g2(2) have "body' = Plus (Cls isDigit)"
      by (simp add: ipTokenRe_def quadRe_def Rep13_def Plus_def Opt_def Chr_def)
    with g2(3) lang_Plus_Cls have "substring t a' b' \<noteq> [] \<and> list_all isDigit (substring t a' b')"
      by blast
    with g2(1) show ?thesis by simp
  qed
  from serverOf_pair_shape [OF h this] assms(2) g(1) show ?thesis by simp
qed

lemma shape_specific: "s \<in> set specificServers \<Longrightarrow> endpointShape s"
proof -
  have "list_all endpointShape specificServers" by code_simp
  then show "s \<in> set specificServers \<Longrightarrow> endpointShape s" by (simp add: list_all_iff)
qed

lemma list_all_set_add: "list_all P acc \<Longrightarrow> P s \<Longrightarrow> list_all P (set_add acc s)"
  by (simp add: set_add_def)

section \<open>The first pattern, computed\<close>

lemma drop_Cons_nth: "drop i t = c # u \<Longrightarrow> i < length t \<and> t ! i = c \<and> drop (Suc i) t = u"
proof -
  assume d: "drop i t = c # u"
  then have i: "i < length t" by (cases "i < length t") simp_all
  from d i have "t ! i = c" by (metis nth_via_drop)
  moreover from d have "drop (Suc i) t = u" by (metis drop_Suc list.sel(3) tl_drop)
  ultimately show ?thesis using i by simp
qed

lemma m_Cls_drop:
  "drop i t = c # u \<Longrightarrow> m (Cls p) t (i, caps) = (if p c then [(Suc i, caps)] else [])"
  using drop_Cons_nth [of i t c u] by simp

lemma m_Cls_end: "drop i t = [] \<Longrightarrow> m (Cls p) t (i, caps) = []"
  by simp

lemma lit_Cons: "lit (c # s) = Seq (Cls (\<lambda>x. x = c)) (lit s)"
  by (simp add: lit_def)

lemma lit_Nil: "lit [] = Eps"
  by (simp add: lit_def)

lemma m_lit:
  "m (lit s) t (i, caps) = (if startsWith (drop i t) s then [(i + length s, caps)] else [])"
proof (induction s arbitrary: i)
  case Nil
  show ?case by (simp add: lit_Nil)
next
  case (Cons c s)
  show ?case
  proof (cases "drop i t")
    case Nil
    then show ?thesis by (simp add: lit_Cons)
  next
    case (Cons d u)
    from drop_Cons_nth [OF this] have "drop (Suc i) t = u" by simp
    with Cons Cons.IH [of "Suc i"] m_Cls_drop [OF Cons, of "\<lambda>x. x = c" caps]
    show ?thesis by (simp add: lit_Cons del: m.simps(1))
  qed
qed

lemma reset_empty [simp]: "reset {} y = y"
  by (simp add: reset_def)

lemma star_iter_Cls:
  "drop i t = u \<Longrightarrow>
   star_iter (\<lambda>y. m (Cls p) t y) (length u) (i, caps)
     = map (\<lambda>k. (i + k, caps)) (rev [0..<Suc (length (takeWhile p u))])"
proof (induction u arbitrary: i)
  case Nil
  then show ?case by simp
next
  case (Cons c u)
  from drop_Cons_nth [OF Cons.prems] have d: "drop (Suc i) t = u" by simp
  show ?case
  proof (cases "p c")
    case False
    with m_Cls_drop [OF Cons.prems, of p caps] show ?thesis by (simp del: m.simps(1))
  next
    case True
    have "[0..<Suc (Suc (length (takeWhile p u)))] = 0 # [Suc 0..<Suc (Suc (length (takeWhile p u)))]"
      by (rule upt_conv_Cons) simp
    also have "\<dots> = 0 # map Suc [0..<Suc (length (takeWhile p u))]"
      by (simp only: map_Suc_upt)
    finally have "map (\<lambda>k. (i + k, caps)) (rev [0..<Suc (Suc (length (takeWhile p u)))])
             = map (\<lambda>k. (Suc i + k, caps)) (rev [0..<Suc (length (takeWhile p u))]) @ [(i, caps)]"
      by (simp only: rev.simps rev_map map_append list.map map_map o_def) simp
    with True m_Cls_drop [OF Cons.prems, of p caps] Cons.IH [OF d]
    show ?thesis by (simp del: m.simps(1) upt_Suc)
  qed
qed

lemma m_Star_Cls:
  "m (Star (Cls p)) t (i, caps)
     = map (\<lambda>k. (i + k, caps)) (rev [0..<Suc (length (takeWhile p (drop i t)))])"
  using star_iter_Cls [of i t "drop i t" p caps] by simp

lemma m_Star_Cls_Cons:
  "m (Star (Cls p)) t (i, caps)
     = (i + length (takeWhile p (drop i t)), caps)
       # map (\<lambda>k. (i + k, caps)) (rev [0..<length (takeWhile p (drop i t))])"
  by (simp add: m_Star_Cls del: m.simps)

lemma in_run:
  "k < length (takeWhile p u) \<Longrightarrow> \<exists>c v. drop k u = c # v \<and> p c"
proof -
  assume k: "k < length (takeWhile p u)"
  have "length (takeWhile p u) \<le> length u" by (rule length_takeWhile_le)
  with k have ku: "k < length u" by simp
  from k have "takeWhile p u ! k = u ! k" by (rule takeWhile_nth)
  moreover from k have "takeWhile p u ! k \<in> set (takeWhile p u)" by simp
  then have "p (takeWhile p u ! k)" by (rule set_takeWhileD [THEN conjunct2])
  ultimately have "p (u ! k)" by simp
  with Cons_nth_drop_Suc [OF ku] show ?thesis by metis
qed

lemma m_Seq_Star_Cls_skip:
  assumes fail: "\<And>j c v. drop j t = c # v \<Longrightarrow> p c \<Longrightarrow> m R t (j, caps) = []"
  shows "m (Seq (Star (Cls p)) R) t (i, caps)
           = m R t (i + length (takeWhile p (drop i t)), caps)"
proof -
  let ?n = "length (takeWhile p (drop i t))"
  have "\<And>k. k < ?n \<Longrightarrow> m R t (i + k, caps) = []"
  proof -
    fix k assume "k < ?n"
    from in_run [OF this] obtain c v where "drop k (drop i t) = c # v" "p c" by blast
    then have "drop (i + k) t = c # v" by (simp add: add.commute)
    from fail [OF this \<open>p c\<close>] show "m R t (i + k, caps) = []" .
  qed
  then have "concat (map (m R t) (map (\<lambda>k. (i + k, caps)) (rev [0..<?n]))) = []"
    by (simp del: m.simps)
  then show ?thesis
    by (simp only: m.simps(3) m_Star_Cls_Cons list.map concat.simps) simp
qed

lemma kms_labels_exclusive: "startsWith u (str ''kms'') \<Longrightarrow> \<not> startsWith u (str ''KMS'')"
  by (cases u) (simp_all add: str_def cu_def)

lemma m_label:
  "m (Alt (lit (str ''kms'')) (lit (str ''KMS''))) t (j, caps)
     = (if startsWith (drop j t) (str ''kms'') \<or> startsWith (drop j t) (str ''KMS'')
        then [(j + 3, caps)] else [])"
  using kms_labels_exclusive [of "drop j t"] by (auto simp: m_lit str_def simp del: m.simps(1))

lemma space_not_colon: "isSpace c \<Longrightarrow> c \<noteq> cu CHR '':''"
  by (auto simp: isSpace_def cu_def)

lemma space_not_hostChar: "isSpace c \<Longrightarrow> \<not> hostChar c"
  by (auto simp: isSpace_def hostChar_def isAlpha_def isDigit_def cu_def)

lemma kmsLabelRe_tokenRe:
  "kmsLabelRe = Seq (Alt (lit (str ''kms'')) (lit (str ''KMS'')))
    (Seq (Star (Cls isSpace)) (Seq (Chr CHR '':'') (Seq (Star (Cls isSpace)) tokenGrp)))"
  by (simp add: kmsLabelRe_def tokenRe_def tokenGrp_def)

lemma m_tokenRe_fail:
  "drop j t = [] \<or> (\<exists>c v. drop j t = c # v \<and> \<not> hostChar c) \<Longrightarrow> m tokenGrp t (j, caps) = []"
proof -
  assume "drop j t = [] \<or> (\<exists>c v. drop j t = c # v \<and> \<not> hostChar c)"
  then have "m (Cls hostChar) t (j, caps) = []"
  proof
    assume "drop j t = []"
    then show ?thesis by (rule m_Cls_end)
  next
    assume "\<exists>c v. drop j t = c # v \<and> \<not> hostChar c"
    then obtain c v where "drop j t = c # v" "\<not> hostChar c" by blast
    with m_Cls_drop [of j t c v hostChar caps] show ?thesis by simp
  qed
  then show ?thesis by (simp add: tokenGrp_def tokenRe_def Plus_def del: m.simps(1))
qed

lemma m_after_colon:
  "m (Seq (Star (Cls isSpace)) tokenGrp) t (q, caps)
     = m tokenGrp t (q + length (takeWhile isSpace (drop q t)), caps)"
  by (rule m_Seq_Star_Cls_skip) (simp add: m_tokenRe_fail space_not_hostChar)

lemma m_colon_part:
  "m (Seq (Chr CHR '':'') (Seq (Star (Cls isSpace)) tokenGrp)) t (q, caps)
     = (case drop q t of
          [] \<Rightarrow> []
        | c # v \<Rightarrow> if c = cu CHR '':''
                   then m tokenGrp t (Suc q + length (takeWhile isSpace v), caps)
                   else [])"
proof (cases "drop q t")
  case Nil
  then show ?thesis by (simp add: Chr_def)
next
  case (Cons c v)
  from drop_Cons_nth [OF Cons] have v: "drop (Suc q) t = v" by simp
  have "m (Seq (Chr CHR '':'') (Seq (Star (Cls isSpace)) tokenGrp)) t (q, caps)
      = concat (map (m (Seq (Star (Cls isSpace)) tokenGrp) t) (m (Chr CHR '':'') t (q, caps)))"
    by simp
  also have "m (Chr CHR '':'') t (q, caps) = (if c = cu CHR '':'' then [(Suc q, caps)] else [])"
    unfolding Chr_def by (rule m_Cls_drop [OF Cons])
  finally show ?thesis using Cons v by (simp add: m_after_colon del: m.simps)
qed

lemma m_kmsLabelRe:
  "m kmsLabelRe t (j, caps)
     = (if startsWith (drop j t) (str ''kms'') \<or> startsWith (drop j t) (str ''KMS'') then
          (case dropWhile isSpace (drop (j + 3) t) of
             [] \<Rightarrow> []
           | c # v \<Rightarrow>
               if c = cu CHR '':''
               then m tokenGrp t
                      (Suc (j + 3 + length (takeWhile isSpace (drop (j + 3) t)))
                         + length (takeWhile isSpace v), caps)
               else [])
        else [])"
proof -
  let ?R = "Seq (Chr CHR '':'') (Seq (Star (Cls isSpace)) tokenGrp)"
  have skip: "m (Seq (Star (Cls isSpace)) ?R) t (j + 3, caps)
          = m ?R t (j + 3 + length (takeWhile isSpace (drop (j + 3) t)), caps)"
  proof (rule m_Seq_Star_Cls_skip)
    fix i c v assume "drop i t = c # v" "isSpace c"
    then show "m ?R t (i, caps) = []"
      by (simp add: m_colon_part space_not_colon del: m.simps)
  qed
  have dw: "drop (j + 3 + length (takeWhile isSpace (drop (j + 3) t))) t
          = dropWhile isSpace (drop (j + 3) t)"
    by (simp add: dropWhile_eq_drop add.commute)
  have "m kmsLabelRe t (j, caps)
      = concat (map (m (Seq (Star (Cls isSpace)) ?R) t)
                 (m (Alt (lit (str ''kms'')) (lit (str ''KMS''))) t (j, caps)))"
    by (simp only: kmsLabelRe_tokenRe m.simps(3))
  then show ?thesis
    by (simp add: m_label skip m_colon_part dw del: m.simps)
qed

lemma firstMatch_Seq:
  "firstMatch a t x = Some x' \<Longrightarrow> firstMatch b t x' = Some y \<Longrightarrow> firstMatch (Seq a b) t x = Some y"
  by (auto simp: firstMatch_def split: list.splits)

lemma firstMatch_Alt1:
  "firstMatch a t x = Some y \<Longrightarrow> firstMatch (Alt a b) t x = Some y"
  by (auto simp: firstMatch_def split: list.splits)

lemma firstMatch_Alt2:
  "m a t x = [] \<Longrightarrow> firstMatch (Alt a b) t x = firstMatch b t x"
  by (simp add: firstMatch_def)

lemma firstMatch_Eps: "firstMatch Eps t x = Some x"
  by (simp add: firstMatch_def)

lemma firstMatch_Grp:
  "firstMatch a t x = Some y \<Longrightarrow>
     firstMatch (Grp n a) t x = Some (fst y, (snd y)(n \<mapsto> (fst x, fst y)))"
  by (auto simp: firstMatch_def split: list.splits)

lemma takeWhile_run:
  "list_all p w \<Longrightarrow> u = [] \<or> \<not> p (hd u) \<Longrightarrow> takeWhile p (w @ u) = w"
  by (induction w) (auto simp: takeWhile_eq_Nil_iff)

lemma dropWhile_run:
  "list_all p w \<Longrightarrow> u = [] \<or> \<not> p (hd u) \<Longrightarrow> dropWhile p (w @ u) = u"
  by (induction w) (auto simp: dropWhile_eq_self_iff)

lemma firstMatch_Plus_Cls:
  assumes "drop i t = w @ u" "w \<noteq> []" "list_all p w" "u = [] \<or> \<not> p (hd u)"
  shows "firstMatch (Plus (Cls p)) t (i, caps) = Some (i + length w, caps)"
proof -
  from assms(2) obtain c w' where w: "w = c # w'" by (cases w) auto
  with assms(1) have d: "drop i t = c # (w' @ u)" by simp
  from drop_Cons_nth [OF d] have d': "drop (Suc i) t = w' @ u" by simp
  from w assms(3) have pc: "p c" "list_all p w'" by simp_all
  from takeWhile_run [OF pc(2) assms(4)] d'
  have "takeWhile p (drop (Suc i) t) = w'" by simp
  with m_Star_Cls_Cons [of p t "Suc i" caps]
  have "firstMatch (Star (Cls p)) t (Suc i, caps) = Some (Suc i + length w', caps)"
    by (simp add: firstMatch_def del: m.simps)
  moreover from m_Cls_drop [OF d, of p caps] pc(1)
  have "firstMatch (Cls p) t (i, caps) = Some (Suc i, caps)"
    by (simp add: firstMatch_def del: m.simps)
  ultimately have "firstMatch (Seq (Cls p) (Star (Cls p))) t (i, caps) = Some (Suc i + length w', caps)"
    by (rule firstMatch_Seq [rotated])
  with w show ?thesis by (simp add: Plus_def)
qed

lemma m_Plus_Cls_fail:
  "drop i t = [] \<or> (\<exists>c v. drop i t = c # v \<and> \<not> p c) \<Longrightarrow> m (Plus (Cls p)) t (i, caps) = []"
proof -
  assume "drop i t = [] \<or> (\<exists>c v. drop i t = c # v \<and> \<not> p c)"
  then have "m (Cls p) t (i, caps) = []"
  proof
    assume "drop i t = []"
    then show ?thesis by (rule m_Cls_end)
  next
    assume "\<exists>c v. drop i t = c # v \<and> \<not> p c"
    then obtain c v where "drop i t = c # v" "\<not> p c" by blast
    with m_Cls_drop [of i t c v p caps] show ?thesis by simp
  qed
  then show ?thesis by (simp add: Plus_def del: m.simps(1))
qed

lemma firstMatch_port:
  assumes "drop b t = rest"
  shows "firstMatch (Opt portRe) t (b, caps)
           = Some (b + (case tokenPort rest of None \<Rightarrow> 0 | Some p \<Rightarrow> Suc (length p)), caps)"
proof (cases rest)
  case Nil
  with assms have "m (Chr CHR '':'') t (b, caps) = []" unfolding Chr_def by (simp add: m_Cls_end)
  then have "m portRe t (b, caps) = []" by (simp add: portRe_def del: m.simps(1))
  then have "firstMatch (Opt portRe) t (b, caps) = Some (b, caps)"
    unfolding Opt_def by (simp add: firstMatch_Alt2 firstMatch_Eps del: m.simps)
  with Nil show ?thesis by (simp add: tokenPort_def)
next
  case (Cons c r)
  with assms have d: "drop b t = c # r" by simp
  from drop_Cons_nth [OF d] have d': "drop (Suc b) t = r" by simp
  have chr: "m (Chr CHR '':'') t (b, caps) = (if c = cu CHR '':'' then [(Suc b, caps)] else [])"
    unfolding Chr_def by (rule m_Cls_drop [OF d])
  show ?thesis
  proof (cases "c = cu CHR '':'' \<and> takeWhile isDigit r \<noteq> []")
    case True
    let ?p = "takeWhile isDigit r"
    have "r = ?p @ dropWhile isDigit r" by simp
    with d' have dr: "drop (Suc b) t = ?p @ dropWhile isDigit r" by simp
    have all: "list_all isDigit ?p" by (simp add: list_all_iff) (meson set_takeWhileD)
    have stop: "dropWhile isDigit r = [] \<or> \<not> isDigit (hd (dropWhile isDigit r))"
      by (metis hd_dropWhile)
    from firstMatch_Plus_Cls [OF dr _ all stop, of caps] True
    have "firstMatch (Plus (Cls isDigit)) t (Suc b, caps) = Some (Suc b + length ?p, caps)" by simp
    moreover from chr True have "firstMatch (Chr CHR '':'') t (b, caps) = Some (Suc b, caps)"
      by (simp add: firstMatch_def del: m.simps)
    ultimately have "firstMatch portRe t (b, caps) = Some (Suc b + length ?p, caps)"
      unfolding portRe_def by (rule firstMatch_Seq [rotated])
    then have "firstMatch (Opt portRe) t (b, caps) = Some (Suc b + length ?p, caps)"
      unfolding Opt_def by (rule firstMatch_Alt1)
    with True Cons show ?thesis by (simp add: tokenPort_def)
  next
    case False
    have "m portRe t (b, caps) = []"
    proof (cases "c = cu CHR '':''")
      case False
      with chr show ?thesis by (simp add: portRe_def del: m.simps(1))
    next
      case True
      with False have "takeWhile isDigit r = []" by simp
      then have "r = [] \<or> (\<exists>e v. r = e # v \<and> \<not> isDigit e)"
        by (cases r) (auto split: if_splits)
      with d' have "m (Plus (Cls isDigit)) t (Suc b, caps) = []"
        by (intro m_Plus_Cls_fail) simp
      with chr True show ?thesis by (simp add: portRe_def del: m.simps(1))
    qed
    then have "firstMatch (Opt portRe) t (b, caps) = Some (b, caps)"
      unfolding Opt_def by (simp add: firstMatch_Alt2 firstMatch_Eps del: m.simps)
    with False Cons show ?thesis by (auto simp: tokenPort_def)
  qed
qed

lemma tokenRe_portRe: "tokenRe = Seq (Plus (Cls hostChar)) (Opt portRe)"
  by (simp add: tokenRe_def portRe_def)

lemma firstMatch_tokenGrp:
  assumes "drop a t = host @ rest" "host \<noteq> []" "list_all hostChar host"
    "rest = [] \<or> \<not> hostChar (hd rest)"
    and e: "e = a + length host + (case tokenPort rest of None \<Rightarrow> 0 | Some p \<Rightarrow> Suc (length p))"
  shows "firstMatch tokenGrp t (a, caps) = Some (e, caps(1 \<mapsto> (a, e)))"
proof -
  from firstMatch_Plus_Cls [OF assms(1-4)]
  have 1: "firstMatch (Plus (Cls hostChar)) t (a, caps) = Some (a + length host, caps)" .
  from assms(1) have "drop (a + length host) t = rest"
    by (metis add.commute append_eq_conv_conj drop_drop)
  from firstMatch_port [OF this]
  have 2: "firstMatch (Opt portRe) t (a + length host, caps) = Some (e, caps)"
    by (simp add: e)
  from firstMatch_Seq [OF 1 2] have "firstMatch tokenRe t (a, caps) = Some (e, caps)"
    by (simp add: tokenRe_portRe)
  from firstMatch_Grp [OF this, of 1] show ?thesis by (simp add: tokenGrp_def)
qed

lemma rule1_none:
  assumes "\<not> labelledTokenAt (drop j t)"
  shows "m kmsLabelRe t (j, caps) = []"
proof (cases "startsWith (drop j t) (str ''kms'') \<or> startsWith (drop j t) (str ''KMS'')")
  case False
  then show ?thesis by (simp add: m_kmsLabelRe del: m.simps)
next
  case True
  have d3: "drop 3 (drop j t) = drop (j + 3) t" by (simp add: add.commute)
  from True have unfolded: "m kmsLabelRe t (j, caps)
     = (case dropWhile isSpace (drop (j + 3) t) of
             [] \<Rightarrow> []
           | c # v \<Rightarrow>
               if c = cu CHR '':''
               then m tokenGrp t
                      (Suc (j + 3 + length (takeWhile isSpace (drop (j + 3) t)))
                         + length (takeWhile isSpace v), caps)
               else [])"
    by (simp only: m_kmsLabelRe if_True)
  show ?thesis
  proof (cases "dropWhile isSpace (drop (j + 3) t)")
    case Nil
    show ?thesis unfolding unfolded Nil by simp
  next
    case (Cons c v)
    show ?thesis
    proof (cases "c = cu CHR '':''")
      case False
      then show ?thesis unfolding unfolded Cons by simp
    next
      case colon: True
      let ?q = "j + 3 + length (takeWhile isSpace (drop (j + 3) t))"
      let ?a = "Suc ?q + length (takeWhile isSpace v)"
      have "drop ?q t = dropWhile isSpace (drop (j + 3) t)"
        by (simp add: dropWhile_eq_drop add.commute)
      with Cons have "drop ?q t = c # v" by simp
      from drop_Cons_nth [OF this] have "drop (Suc ?q) t = v" by simp
      then have da: "drop ?a t = dropWhile isSpace v"
        by (metis add.commute drop_drop dropWhile_eq_drop)
      from assms True have "\<not> (case dropWhile isSpace (drop (j + 3) t) of
            [] \<Rightarrow> False
          | c # u' \<Rightarrow> c = cu CHR '':''
              \<and> (case dropWhile isSpace u' of [] \<Rightarrow> False | d # u'' \<Rightarrow> hostChar d))"
        by (simp only: labelledTokenAt_def d3 simp_thms)
      then have "\<not> (case dropWhile isSpace v of [] \<Rightarrow> False | d # u'' \<Rightarrow> hostChar d)"
        unfolding Cons using colon by simp
      then have "dropWhile isSpace v = [] \<or> (\<exists>d u. dropWhile isSpace v = d # u \<and> \<not> hostChar d)"
        by (cases "dropWhile isSpace v") simp_all
      with da have "m tokenGrp t (?a, caps) = []"
        by (intro m_tokenRe_fail) simp
      with colon show ?thesis unfolding unfolded Cons by simp
    qed
  qed
qed

lemma startsWith_append [simp]: "startsWith (s @ x) s"
  by (induction s) simp_all

lemma rule1_first:
  assumes t: "t = pre @ lab @ ws1 @ cu CHR '':'' # ws2 @ host @ rest"
    and lab: "lab = str ''kms'' \<or> lab = str ''KMS''"
    and ws: "list_all isSpace ws1" "list_all isSpace ws2"
    and host: "host \<noteq> []" "list_all hostChar host" "rest = [] \<or> \<not> hostChar (hd rest)"
    and a: "a = length pre + 3 + length ws1 + 1 + length ws2"
    and e: "e = a + length host + (case tokenPort rest of None \<Rightarrow> 0 | Some p \<Rightarrow> Suc (length p))"
  shows "firstMatch kmsLabelRe t (length pre, caps) = Some (e, caps(1 \<mapsto> (a, e)))"
proof -
  from lab have len: "length lab = 3" by (auto simp: str_def)
  from t have d0: "drop (length pre) t = lab @ ws1 @ cu CHR '':'' # ws2 @ host @ rest" by simp
  with lab have sw: "startsWith (drop (length pre) t) (str ''kms'')
                   \<or> startsWith (drop (length pre) t) (str ''KMS'')"
    by auto
  from t len have d1: "drop (length pre + 3) t = ws1 @ cu CHR '':'' # ws2 @ host @ rest"
    by (simp add: drop_append)
  have nsp: "\<not> isSpace (cu CHR '':'')" using space_not_colon by blast
  from takeWhile_run [OF ws(1), of "cu CHR '':'' # ws2 @ host @ rest"] nsp d1
  have tw1: "takeWhile isSpace (drop (length pre + 3) t) = ws1" by simp
  from dropWhile_run [OF ws(1), of "cu CHR '':'' # ws2 @ host @ rest"] nsp d1
  have dw1: "dropWhile isSpace (drop (length pre + 3) t) = cu CHR '':'' # ws2 @ host @ rest" by simp
  from host(1,2) have "\<not> isSpace (hd (host @ rest))"
    using space_not_hostChar by (cases host) auto
  with host(1) have stop: "host @ rest = [] \<or> \<not> isSpace (hd (host @ rest))" by simp
  from takeWhile_run [OF ws(2) stop]
  have tw2: "takeWhile isSpace (ws2 @ host @ rest) = ws2" .
  from t len have da: "drop a t = host @ rest"
    by (simp add: a drop_append)
  from firstMatch_tokenGrp [OF da host e]
  have "firstMatch tokenGrp t (a, caps) = Some (e, caps(1 \<mapsto> (a, e)))" .
  moreover have "m kmsLabelRe t (length pre, caps) = m tokenGrp t (a, caps)"
    using sw by (simp add: m_kmsLabelRe dw1 tw1 tw2 a del: m.simps)
  ultimately show ?thesis by (simp add: firstMatch_def)
qed

lemma token_substring:
  assumes "drop a t = host @ rest"
    and "e = a + length host + (case tokenPort rest of None \<Rightarrow> 0 | Some p \<Rightarrow> Suc (length p))"
  shows "substring t a e = host @ (case tokenPort rest of None \<Rightarrow> [] | Some p \<Rightarrow> cu CHR '':'' # p)"
proof (cases "tokenPort rest")
  case None
  with assms show ?thesis by (simp add: substring_def)
next
  case (Some p)
  then obtain r where r: "rest = cu CHR '':'' # r" "p = takeWhile isDigit r"
    by (auto simp: tokenPort_def split: list.splits if_splits)
  have "take (length (takeWhile isDigit r)) r = takeWhile isDigit r"
    by (metis append_eq_conv_conj takeWhile_dropWhile_id)
  with assms Some r show ?thesis by (simp add: substring_def)
qed

lemma serverOf_token:
  assumes "list_all hostChar host"
  shows "serverOf False
           (Str (host @ (case tokenPort rest of None \<Rightarrow> [] | Some p \<Rightarrow> cu CHR '':'' # p)))
           Undefined
         = Returns (host @ str '':'' @ (case tokenPort rest of None \<Rightarrow> str ''1688'' | Some p \<Rightarrow> p))"
proof (cases "tokenPort rest")
  case None
  from assms have "\<not> str_includes host (str '':'')"
    by (simp add: str_colon str_includes_single no_colon_host)
  with None show ?thesis by (simp add: serverOf_def str_def)
next
  case (Some p)
  have "str_includes (host @ cu CHR '':'' # p) (str '':'')"
    by (simp add: str_colon str_includes_single)
  with Some show ?thesis by (simp add: serverOf_def str_colon)
qed

lemma keeps_member: "endpoint \<in> set acc \<Longrightarrow> endpoint \<in> set (set_add acc server)"
  by (simp add: set_set_add)

section \<open>The matches that the loop visits\<close>

text \<open>
  A match of the pattern at an index is visited by the loop, and its candidate kept when
  the filter accepts it, unless the index lies strictly inside a match that the loop
  visits before. The matches of the first pattern start at labelled tokens.
\<close>

lemma execAll_step:
  "regExpExec r t k = Some (s, y) \<Longrightarrow> k < fst y \<Longrightarrow>
     execAll r t k = (s, fst y) # execAll r t (fst y)"
  by (subst execAll.simps) simp

lemma regExpExec_le:
  "k \<le> p \<Longrightarrow> p \<le> length t \<Longrightarrow> m r t (p, Map.empty) = y # ys \<Longrightarrow>
     \<exists>s y'. regExpExec r t k = Some (s, y') \<and> s \<le> p \<and> (s = p \<longrightarrow> y' = y)"
proof (induction "p - k" arbitrary: k)
  case 0
  then have "k = p" by simp
  with 0 show ?case by simp
next
  case (Suc d)
  then have kp: "k < p" by simp
  show ?case
  proof (cases "m r t (k, Map.empty)")
    case Nil
    with kp Suc.prems have "regExpExec r t k = regExpExec r t (Suc k)" by simp
    moreover have "\<exists>s y'. regExpExec r t (Suc k) = Some (s, y') \<and> s \<le> p \<and> (s = p \<longrightarrow> y' = y)"
    proof (rule Suc.hyps(1))
      show "d = p - Suc k" using Suc.hyps(2) by simp
      show "Suc k \<le> p" using kp by simp
    qed (use Suc.prems in simp_all)
    ultimately show ?thesis by simp
  next
    case (Cons y' ys')
    with kp Suc.prems have "regExpExec r t k = Some (k, y')" by simp
    with kp show ?thesis by auto
  qed
qed

lemma execAll_member:
  "z \<in> set (execAll r t k) \<Longrightarrow> k \<le> fst z \<and> m r t (fst z, Map.empty) \<noteq> []"
proof (induction r t k rule: execAll.induct)
  case (1 r t k)
  show ?case
  proof (cases "regExpExec r t k")
    case None
    with "1.prems" show ?thesis by (subst (asm) execAll.simps) simp
  next
    case (Some w)
    obtain s y where w: "w = (s, y)" by (cases w)
    from Some w have ex: "regExpExec r t k = Some (s, y)" by simp
    from regExpExec_found [OF ex]
    have s: "k \<le> s" and y: "y \<in> set (m r t (s, Map.empty))" by simp_all
    show ?thesis
    proof (cases "fst y \<le> k")
      case True
      with ex "1.prems" show ?thesis by (subst (asm) execAll.simps) simp
    next
      case False
      with ex "1.prems" have "z = (s, fst y) \<or> z \<in> set (execAll r t (fst y))"
        by (subst (asm) execAll.simps) simp
      then show ?thesis
      proof
        assume "z = (s, fst y)"
        with s y show ?thesis by auto
      next
        assume "z \<in> set (execAll r t (fst y))"
        from "1.IH" [OF Some _ False this] w m_mono [OF y] s show ?thesis by simp
      qed
    qed
  qed
qed


lemma scanLoop_keeps:
  assumes wb: "1 \<le> minlen r" "isIp \<or> mustSet 1 r" and "server \<in> set acc"
  shows "\<exists>vs. scanLoop isIp r t k acc = Returns vs \<and> server \<in> set vs"
proof (rule scanLoop_invariant [where I = "\<lambda>vs. server \<in> set vs", OF wb])
  show "server \<in> set acc" by fact
next
  fix a s assume "server \<in> set a"
  then show "server \<in> set (set_add a s)" by (simp add: set_set_add)
qed


lemma scanLoop_includes:
  assumes wb: "1 \<le> minlen r" "isIp \<or> mustSet 1 r"
    and match: "m r t (p, Map.empty) = y # ys" "p \<le> length t"
    and sv: "serverOf isIp (matchGroup t y 1) (matchGroup t y 2) = Returns server"
    and likely: "isLikelyKmsServer server"
  shows "k \<le> p \<Longrightarrow> \<forall>z \<in> set (execAll r t k). \<not> (fst z < p \<and> p < snd z) \<Longrightarrow>
         \<exists>vs. scanLoop isIp r t k servers = Returns vs \<and> server \<in> set vs"
proof (induction "p - k" arbitrary: k servers rule: less_induct)
  case less
  from regExpExec_le [OF less.prems(1) match(2,1)] obtain s y'
    where ex: "regExpExec r t k = Some (s, y')" and sp: "s \<le> p" and same: "s = p \<longrightarrow> y' = y"
    by blast
  from regExpExec_found [OF ex]
  have s: "k \<le> s" "s \<le> length t" and y': "y' \<in> set (m r t (s, Map.empty))" by blast+
  from m_minlen [OF y'] wb(1) s(1) have adv: "k < fst y'" "s < fst y'" by simp_all
  have "isIp \<or> matchGroup t y' 1 \<noteq> Undefined"
    using wb(2) m_mustSet [OF y'] matchGroup_defined by blast
  from serverOf_returns [OF this] obtain server'
    where sv': "serverOf isIp (matchGroup t y' 1) (matchGroup t y' 2) = Returns server'" by blast
  let ?acc = "if isLikelyKmsServer server' then set_add servers server' else servers"
  note step = scanLoop_step [OF ex sv' adv(1), of servers]
  show ?case
  proof (cases "s = p")
    case True
    with same sv sv' have "server' = server" by simp
    with likely have "server \<in> set ?acc" by (simp add: set_set_add)
    from scanLoop_keeps [OF wb this]
    have "\<exists>vs. scanLoop isIp r t (fst y') ?acc = Returns vs \<and> server \<in> set vs" .
    then show ?thesis by (simp only: step)
  next
    case False
    with sp have "s < p" by simp
    have ea: "execAll r t k = (s, fst y') # execAll r t (fst y')"
      by (rule execAll_step [OF ex adv(1)])
    from less.prems(2) have all: "\<forall>z \<in> set ((s, fst y') # execAll r t (fst y')). \<not> (fst z < p \<and> p < snd z)"
      by (simp only: ea)
    then have free: "\<not> (s < p \<and> p < fst y')" by (simp del: execAll.simps)
    from all have rest: "\<forall>z \<in> set (execAll r t (fst y')). \<not> (fst z < p \<and> p < snd z)"
      by (simp del: execAll.simps)
    from free \<open>s < p\<close> have le: "fst y' \<le> p" by simp
    have "\<exists>vs. scanLoop isIp r t (fst y') ?acc = Returns vs \<and> server \<in> set vs"
    proof (rule less.hyps [OF _ le rest])
      show "p - fst y' < p - k" using adv(1) le by simp
    qed
    then show ?thesis by (simp only: step)
  qed
qed


lemma execAll_labelled:
  "z \<in> set (execAll kmsLabelRe t k) \<Longrightarrow> labelledTokenAt (drop (fst z) t)"
  using execAll_member [of z kmsLabelRe t k] rule1_none [of "fst z" t Map.empty] by blast

section \<open>The fuel of the star\<close>

text \<open>
  More fuel changes nothing: the iterations of \<open>*\<close> stop by themselves when the text is
  used up.
\<close>

lemma star_iter_Suc:
  "star_iter f (Suc n) x
     = concat (map (star_iter f n) (filter (\<lambda>y. fst y \<noteq> fst x) (f x))) @ [x]"
  by simp

lemma star_iter_fuel:
  assumes f: "\<And>x y. y \<in> set (f x) \<Longrightarrow> fst x \<le> N \<Longrightarrow> fst x \<le> fst y \<and> fst y \<le> N"
  shows "fst x \<le> N \<Longrightarrow> N - fst x \<le> n \<Longrightarrow> star_iter f (Suc n) x = star_iter f n x"
proof (induction n arbitrary: x)
  case 0
  have "filter (\<lambda>y. fst y \<noteq> fst x) (f x) = []"
  proof (rule filter_False, rule ballI)
    fix y assume "y \<in> set (f x)"
    from f [OF this "0.prems"(1)] "0.prems" show "\<not> fst y \<noteq> fst x" by auto
  qed
  then show ?case by simp
next
  case (Suc n)
  have "map (star_iter f (Suc n)) (filter (\<lambda>y. fst y \<noteq> fst x) (f x))
      = map (star_iter f n) (filter (\<lambda>y. fst y \<noteq> fst x) (f x))"
  proof (rule map_cong [OF refl])
    fix y assume "y \<in> set (filter (\<lambda>y. fst y \<noteq> fst x) (f x))"
    then have y: "y \<in> set (f x)" "fst y \<noteq> fst x" by simp_all
    from f [OF y(1) Suc.prems(1)] y(2) Suc.prems(2) have "fst y \<le> N" "N - fst y \<le> n" by auto
    then show "star_iter f (Suc n) y = star_iter f n y" by (rule Suc.IH)
  qed
  then show ?case
    by (simp only: star_iter_Suc [of f "Suc n" x] star_iter_Suc [of f n x])
qed

lemma m_Star_fuel:
  assumes "fst x \<le> length t"
  shows "m (Star a) t x = star_iter (\<lambda>y. m a t (reset (groups a) y)) (length t - fst x + k) x"
proof (induction k)
  case 0
  show ?case by simp
next
  case (Suc k)
  have "star_iter (\<lambda>y. m a t (reset (groups a) y)) (Suc (length t - fst x + k)) x
      = star_iter (\<lambda>y. m a t (reset (groups a) y)) (length t - fst x + k) x"
  proof (rule star_iter_fuel [where N = "length t"])
    fix x y assume y: "y \<in> set (m a t (reset (groups a) x))" and "fst x \<le> length t"
    with m_mono [OF y] m_bound [OF y]
    show "fst x \<le> fst y \<and> fst y \<le> length t"
      by (simp add: reset_def)
  qed (use assms in simp_all)
  with Suc show ?case by simp
qed


section \<open>The extension patterns of the denylist\<close>

text \<open>
  A pattern \<open>/\.ext$/i\<close> matches only strings whose last character is the last letter of
  the extension. The strings that \<open>isLikelyKmsServer\<close> is given end with the digits of
  the port, so none of the six extension patterns ever rejects a candidate.
\<close>

lemma m_EndA_last: "y \<in> set (m (Seq a EndA) t x) \<Longrightarrow> fst y = length t"
  by (auto split: if_splits)

lemma lit_i_Cons: "lit_i (c # s) = Seq (Cls (\<lambda>x. canonicalize x = canonicalize c)) (lit_i s)"
  by (simp add: lit_i_def)

lemma lang_lit_i: "lang (lit_i s) w \<Longrightarrow> map canonicalize w = map canonicalize s"
proof (induction s arbitrary: w)
  case Nil
  then show ?case by (auto simp: lit_i_def elim: lang_EpsE)
next
  case (Cons c s)
  from Cons.prems obtain u v where "w = u @ v"
    "lang (Cls (\<lambda>x. canonicalize x = canonicalize c)) u" "lang (lit_i s) v"
    unfolding lit_i_Cons by (auto elim: lang_SeqE)
  with Cons.IH show ?case by (auto elim!: lang_ClsE)
qed

lemma test_found:
  "test r t \<Longrightarrow> \<exists>k y. k \<le> length t \<and> y \<in> set (m r t (k, Map.empty))"
proof -
  assume "test r t"
  then obtain z where "regExpExec r t 0 = Some z" by (auto simp: test_def split: option.splits)
  then obtain k y where "regExpExec r t 0 = Some (k, y)" by (cases z) auto
  from regExpExec_found [OF this] show ?thesis by blast
qed

lemma suffix_pattern_last:
  assumes "test (Seq (lit_i ext) EndA) s" "ext \<noteq> []"
  shows "s \<noteq> [] \<and> canonicalize (last s) = canonicalize (last ext)"
proof -
  from test_found [OF assms(1)] obtain k y
    where k: "k \<le> length s" and y: "y \<in> set (m (Seq (lit_i ext) EndA) s (k, Map.empty))" by blast
  from m_EndA_last [OF y] have e: "fst y = length s" .
  from m_lang [OF y] e have "lang (Seq (lit_i ext) EndA) (drop k s)"
    by (simp add: substring_def)
  then have "lang (lit_i ext) (drop k s)"
    by (auto elim!: lang_SeqE elim: lang.cases)
  from lang_lit_i [OF this] have eq: "map canonicalize (drop k s) = map canonicalize ext" .
  with assms(2) have ne: "drop k s \<noteq> []" by auto
  then have "s \<noteq> []" by auto
  moreover from ne have "last (drop k s) = last s" by (simp add: last_drop)
  moreover from eq ne assms(2) have "canonicalize (last (drop k s)) = canonicalize (last ext)"
    by (metis last_map)
  ultimately show ?thesis by simp
qed

lemma split_not_empty: "split sep s \<noteq> []"
  by (induction s) (auto split: list.splits)

lemma split_single: "split sep s = [p] \<Longrightarrow> s = p"
proof (induction s arbitrary: p)
  case Nil
  then show ?case by simp
next
  case (Cons c s)
  show ?case
  proof (cases "c = sep")
    case True
    with Cons.prems split_not_empty [of sep s] show ?thesis by simp
  next
    case False
    with Cons.prems split_not_empty [of sep s] obtain q where "split sep s = [q]" "p = c # q"
      by (auto split: list.splits)
    with Cons.IH show ?thesis by simp
  qed
qed

lemma split_pair: "split sep s = [h, p] \<Longrightarrow> s = h @ sep # p"
proof (induction s arbitrary: h)
  case Nil
  then show ?case by simp
next
  case (Cons c s)
  show ?case
  proof (cases "c = sep")
    case True
    with Cons.prems have "h = []" "split sep s = [p]" by simp_all
    with split_single [of sep s p] True show ?thesis by simp
  next
    case False
    with Cons.prems split_not_empty [of sep s] obtain q where "split sep s = [q, p]" "h = c # q"
      by (auto split: list.splits)
    with Cons.IH show ?thesis by simp
  qed
qed

lemma endpointShape_decompose:
  "endpointShape s \<Longrightarrow>
     \<exists>h p. s = h @ cu CHR '':'' # p \<and> h \<noteq> [] \<and> list_all hostChar h \<and> p \<noteq> [] \<and> list_all isDigit p"
proof -
  assume "endpointShape s"
  then obtain h p where "split_colon s = [h, p]" "h \<noteq> []" "list_all hostChar h"
    "p \<noteq> []" "list_all isDigit p"
    by (auto simp: endpointShape_def split: list.splits)
  with split_pair [of "cu CHR '':''" s h p] show ?thesis by (auto simp: split_colon_def)
qed

lemma endpointShape_last_digit: "endpointShape s \<Longrightarrow> s \<noteq> [] \<and> isDigit (last s)"
  by (auto dest!: endpointShape_decompose simp: list_all_iff)

lemma digit_not_letter:
  "isDigit d \<Longrightarrow> isAlpha c \<Longrightarrow> canonicalize d \<noteq> canonicalize c"
  by (auto simp: isDigit_def isAlpha_def canonicalize_def cu_def)

lemma extension_patterns_dead:
  assumes "endpointShape server" "ext \<noteq> []" "isAlpha (last ext)"
  shows "\<not> test (Seq (lit_i ext) EndA) server"
proof
  assume "test (Seq (lit_i ext) EndA) server"
  from suffix_pattern_last [OF this assms(2)] endpointShape_last_digit [OF assms(1)]
    digit_not_letter [OF _ assms(3)]
  show False by auto
qed

lemma extension_patterns_never_fire:
  assumes "endpointShape server"
  shows "\<not> list_ex (\<lambda>pattern. test pattern server) (drop 5 notKmsPatterns)"
proof -
  have letters: "isAlpha (last (str ''.js''))" "isAlpha (last (str ''.css''))"
    "isAlpha (last (str ''.html''))" "isAlpha (last (str ''.png''))"
    "isAlpha (last (str ''.jpg''))" "isAlpha (last (str ''.gif''))"
    by (simp_all add: str_def isAlpha_def cu_def)
  have ne: "str ''.js'' \<noteq> []" "str ''.css'' \<noteq> []" "str ''.html'' \<noteq> []"
    "str ''.png'' \<noteq> []" "str ''.jpg'' \<noteq> []" "str ''.gif'' \<noteq> []"
    by (simp_all add: str_def)
  have "drop 5 notKmsPatterns =
     [Seq (lit_i (str ''.js'')) EndA, Seq (lit_i (str ''.css'')) EndA,
      Seq (lit_i (str ''.html'')) EndA, Seq (lit_i (str ''.png'')) EndA,
      Seq (lit_i (str ''.jpg'')) EndA, Seq (lit_i (str ''.gif'')) EndA]"
    by (simp add: notKmsPatterns_def)
  with extension_patterns_dead [OF assms] letters ne show ?thesis by simp
qed

section \<open>Probing and selection: properties\<close>

lemma probe_cases:
  "probe exec server = Returns True \<or> probe exec server = Returns False
     \<or> (\<exists>e. probe exec server = Throws e)"
  by (simp add: probe_def split: sum.split prod.split)

lemma validateLoop_filter:
  "validateLoop exec servers acc = Returns (acc @ filter (reachable exec) servers)"
proof (induction servers arbitrary: acc)
  case Nil
  show ?case by simp
next
  case (Cons server rest)
  from probe_cases [of exec server] show ?case
  proof (elim disjE exE)
    assume "probe exec server = Returns True"
    then show ?thesis by (simp add: Cons.IH reachable_def)
  next
    assume "probe exec server = Returns False"
    then show ?thesis by (simp add: Cons.IH reachable_def)
  next
    fix e assume "probe exec server = Throws e"
    then show ?thesis by (simp add: Cons.IH reachable_def)
  qed
qed

lemma validateKmsServers_filter:
  "validateKmsServers exec servers = Returns (filter (reachable exec) servers)"
  by (simp add: validateKmsServers_def validateLoop_filter)

lemma select_first_reachable:
  "selectKmsServer (map fst (filter snd results))
     = (case List.find snd results of None \<Rightarrow> Undefined | Some r \<Rightarrow> Str (fst r))"
proof (induction results)
  case Nil
  show ?case by (simp add: selectKmsServer_def idx_def)
next
  case (Cons r results)
  then show ?case by (cases "snd r") (simp_all add: selectKmsServer_def idx_def)
qed

text \<open>
  C6. The probe results of a batch are the servers paired with their reachable flags;
  \<open>validateKmsServers\<close> keeps the servers whose flag is true, in input order, and
  \<open>selectKmsServer\<close> takes the first of them. So the selection is the first entry in
  input order whose flag is true, and \<open>undefined\<close> when no flag is true; on the results
  \<open>[(A, false), (B, true), (C, true)]\<close> it is \<open>B\<close>.
\<close>

theorem selector_first_reachable:
  "validateKmsServers exec servers
     = Returns (map fst (filter snd (map (\<lambda>s. (s, reachable exec s)) servers)))
   \<and> selectKmsServer (map fst (filter snd results))
     = (case List.find snd results of None \<Rightarrow> Undefined | Some r \<Rightarrow> Str (fst r))
   \<and> selectKmsServer (map fst (filter snd [(A, False), (B, True), (C, True)])) = Str B"
proof (intro conjI)
  have "map fst (filter snd (map (\<lambda>s. (s, reachable exec s)) servers))
          = filter (reachable exec) servers"
    by (induction servers) simp_all
  then show "validateKmsServers exec servers
     = Returns (map fst (filter snd (map (\<lambda>s. (s, reachable exec s)) servers)))"
    by (simp add: validateKmsServers_filter)
next
  show "selectKmsServer (map fst (filter snd results))
     = (case List.find snd results of None \<Rightarrow> Undefined | Some r \<Rightarrow> Str (fst r))"
    by (rule select_first_reachable)
next
  show "selectKmsServer (map fst (filter snd [(A, False), (B, True), (C, True)])) = Str B"
    by (simp add: selectKmsServer_def idx_def)
qed

section \<open>The hardcoded servers\<close>

text \<open>
  C10. A text that contains \<open>kms.hmg.pw\<close>, \<open>kms.xingez.me\<close> or \<open>140.246.142.164\<close>
  anywhere makes the extraction return a list that holds \<open>kms.hmg.pw:1688\<close>,
  \<open>kms.xingez.me:1688\<close> or \<open>140.246.142.164:1688\<close> respectively. The server is added
  after the pattern loop, whatever the patterns matched and without a call of
  \<open>isLikelyKmsServer\<close>.
\<close>

theorem specific_servers_added:
  "(str_includes t (str ''kms.hmg.pw'')
      \<longrightarrow> (\<exists>vs. extractKmsServers t = Returns vs \<and> str ''kms.hmg.pw:1688'' \<in> set vs))
   \<and> (str_includes t (str ''kms.xingez.me'')
      \<longrightarrow> (\<exists>vs. extractKmsServers t = Returns vs \<and> str ''kms.xingez.me:1688'' \<in> set vs))
   \<and> (str_includes t (str ''140.246.142.164'')
      \<longrightarrow> (\<exists>vs. extractKmsServers t = Returns vs \<and> str ''140.246.142.164:1688'' \<in> set vs))"
proof -
  from extract_total [of t] obtain servers
    where ex: "extractKmsServers t = Returns (specificLoop specificServers t servers)" by blast
  have mem: "\<And>s. s \<in> set specificServers \<Longrightarrow> str_includes t (toString (idx (split_colon s) 0))
                \<Longrightarrow> s \<in> set (specificLoop specificServers t servers)"
    by (simp add: set_specificLoop)
  have "str ''kms.hmg.pw:1688'' \<in> set specificServers"
       "str ''kms.xingez.me:1688'' \<in> set specificServers"
       "str ''140.246.142.164:1688'' \<in> set specificServers"
    by (simp_all add: specificServers_def)
  from this [THEN mem] show ?thesis
    by (simp add: ex specific_hosts)
qed

theorem specific_servers_added_witness:
  "str_includes (str ''a kms.hmg.pw'') (str ''kms.hmg.pw'')
   \<and> (\<exists>vs. extractKmsServers (str ''a kms.hmg.pw'') = Returns vs \<and> str ''kms.hmg.pw:1688'' \<in> set vs)
   \<and> str_includes (str ''kms.xingez.me'') (str ''kms.xingez.me'')
   \<and> (\<exists>vs. extractKmsServers (str ''kms.xingez.me'') = Returns vs \<and> str ''kms.xingez.me:1688'' \<in> set vs)
   \<and> str_includes (str ''x140.246.142.164'') (str ''140.246.142.164'')
   \<and> (\<exists>vs. extractKmsServers (str ''x140.246.142.164'') = Returns vs \<and> str ''140.246.142.164:1688'' \<in> set vs)"
proof -
  have h1: "str_includes (str ''a kms.hmg.pw'') (str ''kms.hmg.pw'')" by code_simp
  have h2: "str_includes (str ''kms.xingez.me'') (str ''kms.xingez.me'')" by code_simp
  have h3: "str_includes (str ''x140.246.142.164'') (str ''140.246.142.164'')" by code_simp
  from h1 h2 h3 specific_servers_added [of "str ''a kms.hmg.pw''"]
    specific_servers_added [of "str ''kms.xingez.me''"]
    specific_servers_added [of "str ''x140.246.142.164''"]
  show ?thesis by blast
qed

section \<open>The batch probe\<close>

lemma reachable_iff:
  "reachable exec s \<longleftrightarrow>
     (\<exists>out err. exec (ncCommand s) = Inr (out, err)
        \<and> \<not> (err \<noteq> [] \<and> str_includes err (str ''Connection refused'')))"
  by (auto simp: reachable_def probe_def split: sum.splits prod.splits)


text \<open>
  C8. Let a fixed set \<open>A\<close> of servers accept connections (the \<open>nc\<close> command succeeds and
  does not report a refused connection) and let the other servers of the input refuse or
  time out (the command fails, or it reports a refused connection). Then the reachable
  flags of the input, in input order, are exactly the memberships in \<open>A\<close>, and
  \<open>validateKmsServers\<close> returns the servers of \<open>A\<close> in input order.
\<close>

theorem probe_order_and_flags:
  assumes "\<forall>s \<in> set servers.
             (s \<in> A \<longrightarrow> (\<exists>out err. exec (ncCommand s) = Inr (out, err)
                             \<and> \<not> str_includes err (str ''Connection refused'')))
           \<and> (s \<notin> A \<longrightarrow> ((\<exists>e. exec (ncCommand s) = Inl e)
                             \<or> (\<exists>out err. exec (ncCommand s) = Inr (out, err) \<and> err \<noteq> []
                                   \<and> str_includes err (str ''Connection refused''))))"
  shows "map (reachable exec) servers = map (\<lambda>s. s \<in> A) servers
       \<and> validateKmsServers exec servers = Returns (filter (\<lambda>s. s \<in> A) servers)"
proof -
  have flags: "\<forall>s \<in> set servers. reachable exec s = (s \<in> A)"
  proof
    fix s assume "s \<in> set servers"
    with assms have
      acc: "s \<in> A \<longrightarrow> (\<exists>out err. exec (ncCommand s) = Inr (out, err)
                             \<and> \<not> str_includes err (str ''Connection refused''))"
      and rej: "s \<notin> A \<longrightarrow> ((\<exists>e. exec (ncCommand s) = Inl e)
                             \<or> (\<exists>out err. exec (ncCommand s) = Inr (out, err) \<and> err \<noteq> []
                                   \<and> str_includes err (str ''Connection refused'')))"
      by blast+
    show "reachable exec s = (s \<in> A)"
    proof (cases "s \<in> A")
      case True
      with acc show ?thesis by (auto simp: reachable_iff)
    next
      case False
      with rej show ?thesis by (auto simp: reachable_iff)
    qed
  qed
  then have "map (reachable exec) servers = map (\<lambda>s. s \<in> A) servers" by simp
  moreover from flags have "filter (reachable exec) servers = filter (\<lambda>s. s \<in> A) servers"
    by (simp cong: filter_cong)
  ultimately show ?thesis by (simp add: validateKmsServers_filter)
qed

theorem probe_order_and_flags_witness:
  "map (reachable (acceptOnly (str ''nc -zv -w 3 b.c 2''))) [str ''a.b:1'', str ''b.c:2'', str ''c.d:3'']
      = [False, True, False]
   \<and> validateKmsServers (acceptOnly (str ''nc -zv -w 3 b.c 2'')) [str ''a.b:1'', str ''b.c:2'', str ''c.d:3'']
      = Returns [str ''b.c:2'']"
proof -
  let ?exec = "acceptOnly (str ''nc -zv -w 3 b.c 2'')"
  let ?servers = "[str ''a.b:1'', str ''b.c:2'', str ''c.d:3'']"
  have c: "ncCommand (str ''a.b:1'') = str ''nc -zv -w 3 a.b 1''"
          "ncCommand (str ''b.c:2'') = str ''nc -zv -w 3 b.c 2''"
          "ncCommand (str ''c.d:3'') = str ''nc -zv -w 3 c.d 3''"
    by code_simp+
  have ne: "str ''nc -zv -w 3 a.b 1'' \<noteq> str ''nc -zv -w 3 b.c 2''"
           "str ''nc -zv -w 3 c.d 3'' \<noteq> str ''nc -zv -w 3 b.c 2''"
           "str ''a.b:1'' \<noteq> str ''b.c:2''" "str ''c.d:3'' \<noteq> str ''b.c:2''"
    by code_simp+
  have nr: "\<not> str_includes [] (str ''Connection refused'')" by code_simp
  have h: "\<forall>s \<in> set ?servers.
             (s \<in> {str ''b.c:2''} \<longrightarrow> (\<exists>out err. ?exec (ncCommand s) = Inr (out, err)
                             \<and> \<not> str_includes err (str ''Connection refused'')))
           \<and> (s \<notin> {str ''b.c:2''} \<longrightarrow> ((\<exists>e. ?exec (ncCommand s) = Inl e)
                             \<or> (\<exists>out err. ?exec (ncCommand s) = Inr (out, err) \<and> err \<noteq> []
                                   \<and> str_includes err (str ''Connection refused''))))"
    using c ne nr by (simp add: acceptOnly_def)
  from probe_order_and_flags [OF h] ne show ?thesis by simp
qed

lemma validateLoop_append:
  "validateKmsServers exec (pre @ post)
     = Returns (filter (reachable exec) pre @ filter (reachable exec) post)"
  by (simp add: validateKmsServers_filter)

lemma testLoop_skip:
  "testKmsServer sock s = Returns False \<Longrightarrow>
     testLoop sock (pre @ s # post) acc = testLoop sock (pre @ post) acc"
proof (induction pre arbitrary: acc)
  case Nil
  then show ?case by simp
next
  case (Cons a pre)
  show ?case
  proof (cases "testKmsServer sock a")
    case (Returns b)
    with Cons show ?thesis by simp
  qed simp_all
qed


lemma testLoop_filter:
  "\<forall>x \<in> set xs. sock x \<noteq> BadArguments \<Longrightarrow>
     testLoop sock xs acc = Returns (acc @ filter (\<lambda>x. sock x = Connected) xs)"
proof (induction xs arbitrary: acc)
  case Nil
  show ?case by simp
next
  case (Cons x xs)
  then have rest: "\<forall>x \<in> set xs. sock x \<noteq> BadArguments" and x: "sock x \<noteq> BadArguments"
    by simp_all
  from x show ?case
    by (cases "sock x") (simp_all add: testKmsServer_def Cons.IH [OF rest])
qed

lemma testLoop_refused_arguments:
  "sock s = BadArguments \<Longrightarrow> \<forall>x \<in> set pre. sock x \<noteq> BadArguments \<Longrightarrow>
     testLoop sock (pre @ s # post) acc = Throws Error"
proof (induction pre arbitrary: acc)
  case Nil
  then show ?case by (simp add: testKmsServer_def)
next
  case (Cons a pre)
  then have rest: "\<forall>x \<in> set pre. sock x \<noteq> BadArguments" and a: "sock a \<noteq> BadArguments"
    by simp_all
  from a show ?case
    by (cases "sock a") (simp_all add: testKmsServer_def Cons.IH [OF Cons.prems(1) rest])
qed

text \<open>
  C9. A probe that fails for one candidate is caught and the batch goes on. In
  \<open>validateKmsServers\<close>, whatever error rejects the command of the candidate, the
  candidate is not reachable and the batch returns exactly the reachable candidates
  before it followed by the reachable candidates after it: every other candidate has
  been probed. In the TCP loop of the later scripts, when the socket of the candidate
  emits an error of any kind or its timer expires, \<open>testKmsServer\<close> resolves to false and
  the loop returns the connected candidates before and after it, provided that
  \<open>socket.connect\<close> accepts the arguments of the other candidates (a refused argument,
  such as a port above 65535, is not a connection failure: it throws out of the loop).
\<close>

theorem probe_failure_contained:
  "(exec (ncCommand s) = Inl e \<longrightarrow>
      probe exec s = Throws e \<and> \<not> reachable exec s
      \<and> validateKmsServers exec (pre @ s # post)
          = Returns (filter (reachable exec) pre @ filter (reachable exec) post)
      \<and> s \<notin> set (filter (reachable exec) pre @ filter (reachable exec) post))
   \<and> ((sock s = ErrorEvent k \<or> sock s = TimerExpires)
        \<and> (\<forall>x \<in> set (pre @ post). sock x \<noteq> BadArguments) \<longrightarrow>
      testKmsServer sock s = Returns False
      \<and> testLoop sock (pre @ s # post) acc
          = Returns (acc @ filter (\<lambda>x. sock x = Connected) pre
                         @ filter (\<lambda>x. sock x = Connected) post))"
proof (intro conjI impI)
  assume f: "exec (ncCommand s) = Inl e"
  then show "probe exec s = Throws e" by (simp add: probe_def)
  from f show nr: "\<not> reachable exec s" by (simp add: reachable_iff)
  then show "validateKmsServers exec (pre @ s # post)
          = Returns (filter (reachable exec) pre @ filter (reachable exec) post)"
    by (simp add: validateKmsServers_filter)
  from nr show "s \<notin> set (filter (reachable exec) pre @ filter (reachable exec) post)"
    by simp
next
  assume a: "(sock s = ErrorEvent k \<or> sock s = TimerExpires)
        \<and> (\<forall>x \<in> set (pre @ post). sock x \<noteq> BadArguments)"
  then show "testKmsServer sock s = Returns False" by (auto simp: testKmsServer_def)
  from a have "\<forall>x \<in> set (pre @ s # post). sock x \<noteq> BadArguments" by auto
  from testLoop_filter [OF this, of acc] a
  show "testLoop sock (pre @ s # post) acc
          = Returns (acc @ filter (\<lambda>x. sock x = Connected) pre
                         @ filter (\<lambda>x. sock x = Connected) post)"
    by auto
qed

theorem probe_failure_contained_witness:
  "validateKmsServers (acceptEither (str ''nc -zv -w 3 b.c 2'') (str ''nc -zv -w 3 d.e 4''))
       ([str ''b.c:2''] @ str ''a.b:1'' # [str ''c.d:3'', str ''d.e:4''])
     = Returns [str ''b.c:2'', str ''d.e:4'']
   \<and> testKmsServer (\<lambda>x. if x = str ''a.b:1'' then ErrorEvent Refused
                         else if x = str ''c.d:3'' then TimerExpires else Connected) (str ''a.b:1'')
       = Returns False
   \<and> testLoop (\<lambda>x. if x = str ''a.b:1'' then ErrorEvent Refused
                    else if x = str ''c.d:3'' then TimerExpires else Connected)
        ([str ''b.c:2''] @ str ''a.b:1'' # [str ''c.d:3'', str ''d.e:4'']) []
       = Returns [str ''b.c:2'', str ''d.e:4'']"
proof -
  let ?exec = "acceptEither (str ''nc -zv -w 3 b.c 2'') (str ''nc -zv -w 3 d.e 4'')"
  let ?sock = "\<lambda>x. if x = str ''a.b:1'' then ErrorEvent Refused
                    else if x = str ''c.d:3'' then TimerExpires else Connected"
  have h1: "?exec (ncCommand (str ''a.b:1'')) = Inl Error" by code_simp
  have r: "reachable ?exec (str ''b.c:2'')" "\<not> reachable ?exec (str ''c.d:3'')"
    "reachable ?exec (str ''d.e:4'')" by code_simp+
  have ne: "str ''b.c:2'' \<noteq> str ''a.b:1''" "str ''c.d:3'' \<noteq> str ''a.b:1''"
    "str ''d.e:4'' \<noteq> str ''a.b:1''" "str ''b.c:2'' \<noteq> str ''c.d:3''"
    "str ''d.e:4'' \<noteq> str ''c.d:3''" by code_simp+
  have h2: "(?sock (str ''a.b:1'') = ErrorEvent Refused \<or> ?sock (str ''a.b:1'') = TimerExpires)
        \<and> (\<forall>x \<in> set ([str ''b.c:2''] @ [str ''c.d:3'', str ''d.e:4'']). ?sock x \<noteq> BadArguments)"
    by simp
  note inst = probe_failure_contained [of ?exec "str ''a.b:1''" Error
      "[str ''b.c:2'']" "[str ''c.d:3'', str ''d.e:4'']" ?sock Refused "[]"]
  from inst h1 have v: "validateKmsServers ?exec ([str ''b.c:2''] @ str ''a.b:1'' # [str ''c.d:3'', str ''d.e:4''])
      = Returns (filter (reachable ?exec) [str ''b.c:2'']
                 @ filter (reachable ?exec) [str ''c.d:3'', str ''d.e:4''])"
    by blast
  have fv: "filter (reachable ?exec) [str ''b.c:2'']
                 @ filter (reachable ?exec) [str ''c.d:3'', str ''d.e:4'']
      = [str ''b.c:2'', str ''d.e:4'']"
    using r by simp
  from inst h2 have t: "testKmsServer ?sock (str ''a.b:1'') = Returns False"
    and l: "testLoop ?sock ([str ''b.c:2''] @ str ''a.b:1'' # [str ''c.d:3'', str ''d.e:4'']) []
      = Returns ([] @ filter (\<lambda>x. ?sock x = Connected) [str ''b.c:2'']
                    @ filter (\<lambda>x. ?sock x = Connected) [str ''c.d:3'', str ''d.e:4''])"
    by blast+
  have ft: "[] @ filter (\<lambda>x. ?sock x = Connected) [str ''b.c:2'']
                    @ filter (\<lambda>x. ?sock x = Connected) [str ''c.d:3'', str ''d.e:4'']
      = [str ''b.c:2'', str ''d.e:4'']"
    using ne by simp
  from v fv have v': "validateKmsServers ?exec ([str ''b.c:2''] @ str ''a.b:1'' # [str ''c.d:3'', str ''d.e:4''])
      = Returns [str ''b.c:2'', str ''d.e:4'']"
    by (simp only:)
  from l ft have l': "testLoop ?sock ([str ''b.c:2''] @ str ''a.b:1'' # [str ''c.d:3'', str ''d.e:4'']) []
      = Returns [str ''b.c:2'', str ''d.e:4'']"
    by (simp only:)
  from v' t l' show ?thesis by (intro conjI)
qed


section \<open>The fallback list\<close>

lemma fallback_lower: "map lowerAscii useFallbackKmsServers = documentedFallback"
  by code_simp

lemma fallback_eleventh: "useFallbackKmsServers ! 10 = str ''kms8.MSGuides.com:1688''"
  by code_simp

lemma fallback_exact:
  "useFallbackKmsServers = documentedFallback[10 := str ''kms8.MSGuides.com:1688'']"
  by code_simp

lemma fallback_p1: "candidates_p1 [] = useFallbackKmsServers"
  by (simp add: candidates_p1_def useFallbackKmsServers_def)

text \<open>
  C5, as stated: the candidate list after a failed fetch is the documented list. It is
  not: the eleventh entry differs in letter case.
\<close>

theorem fallback_differs_from_documented:
  "getKmsServersFromIssue FetchRejects \<noteq> Returns documentedFallback"
  by code_simp


text \<open>
  C5, amended. Whenever \<open>getKmsServersFromIssue\<close> falls back (the fetch is rejected, the
  status is not ok, the body is unreadable, or the extraction returns the empty list),
  and whenever the first script of \<open>part_001\<close> falls back (its fetch gave the empty list,
  as it does when the request fails), the candidate list is the literal list of the code:
  the documented list with its eleventh entry replaced by \<open>kms8.MSGuides.com:1688\<close>,
  element for element; so it has 13 entries and equals the documented list up to letter
  case.
\<close>

theorem fallback_list_used:
  "((resp = FetchRejects \<or> resp = Response False json \<or> resp = Response True JsonFails
      \<or> (resp = Response True (Issue body)
           \<and> extractKmsServers (if truthy body then toString body else []) = Returns []))
     \<longrightarrow> getKmsServersFromIssue resp = Returns useFallbackKmsServers)
   \<and> ((resp = FetchRejects \<or> resp = Response False json \<or> resp = Response True JsonFails)
     \<longrightarrow> fetchKmsServersFromGithub resp = Returns [])
   \<and> (fetchKmsServersFromGithub resp = Returns []
     \<longrightarrow> bind (fetchKmsServersFromGithub resp) (\<lambda>ks. Returns (candidates_p1 ks))
           = Returns useFallbackKmsServers)
   \<and> useFallbackKmsServers = documentedFallback[10 := str ''kms8.MSGuides.com:1688'']
   \<and> length useFallbackKmsServers = 13
   \<and> map lowerAscii useFallbackKmsServers = documentedFallback
   \<and> useFallbackKmsServers ! 10 = str ''kms8.MSGuides.com:1688''"
proof (intro conjI impI)
  assume "resp = FetchRejects \<or> resp = Response False json \<or> resp = Response True JsonFails
      \<or> (resp = Response True (Issue body)
           \<and> extractKmsServers (if truthy body then toString body else []) = Returns [])"
  then show "getKmsServersFromIssue resp = Returns useFallbackKmsServers"
    by (elim disjE conjE) (simp_all add: getKmsServersFromIssue_def)
next
  assume "resp = FetchRejects \<or> resp = Response False json \<or> resp = Response True JsonFails"
  then show "fetchKmsServersFromGithub resp = Returns []"
    by (elim disjE) (simp_all add: fetchKmsServersFromGithub_def)
next
  assume "fetchKmsServersFromGithub resp = Returns []"
  then show "bind (fetchKmsServersFromGithub resp) (\<lambda>ks. Returns (candidates_p1 ks))
           = Returns useFallbackKmsServers"
    by (simp add: fallback_p1)
next
  show "useFallbackKmsServers = documentedFallback[10 := str ''kms8.MSGuides.com:1688'']"
    by (rule fallback_exact)
  show "length useFallbackKmsServers = 13" by (simp add: useFallbackKmsServers_def)
  show "map lowerAscii useFallbackKmsServers = documentedFallback" by (rule fallback_lower)
  show "useFallbackKmsServers ! 10 = str ''kms8.MSGuides.com:1688''" by (rule fallback_eleventh)
qed

theorem fallback_list_used_witness:
  "getKmsServersFromIssue FetchRejects = Returns useFallbackKmsServers
   \<and> fetchKmsServersFromGithub FetchRejects = Returns []
   \<and> bind (fetchKmsServersFromGithub FetchRejects) (\<lambda>ks. Returns (candidates_p1 ks))
       = Returns useFallbackKmsServers"
  using fallback_list_used [of FetchRejects JsonFails Undefined] by simp

section \<open>The exit status\<close>

text \<open>
  C1, evaluated where the claim fails. The issue cannot be fetched and no server
  answers: \<open>main\<close> of \<open>src/main.js\<close> sends no request and the process ends with status 0;
  \<open>main\<close> of the first script of \<open>part_001\<close> ends, in the same surroundings, with
  status 1.
\<close>

theorem no_reachable_exit_zero:
  "main deadWorld = (Exit 0, []) \<and> main_p1 deadWorld_p1 = (Exit 1, [])"
  by code_simp


section \<open>The record type\<close>

text \<open>
  C2, evaluated where the claim fails. Only \<open>140.246.142.164:1688\<close> answers, so it is
  selected: \<open>src/main.js\<close> creates the record with type \<open>CNAME\<close> and the dotted quad as
  content; the first script of \<open>part_001\<close> creates it, in the same surroundings, with
  type \<open>A\<close>.
\<close>

theorem ip_host_published_as_cname:
  "main ipWorld
     = (Exit 0, [\<lparr> req_method = POST, record_id = Undefined, rtype = str ''CNAME'',
                   name = str ''kms.everyhub.top'', content = Str (str ''140.246.142.164''),
                   ttl = 120, proxied = False \<rparr>])
   \<and> main_p1 ipWorld_p1
     = (Exit 0, [\<lparr> req_method = POST, record_id = Undefined, rtype = str ''A'',
                   name = str ''kms.everyhub.top'', content = Str (str ''140.246.142.164''),
                   ttl = 120, proxied = False \<rparr>])"
  by code_simp

section \<open>Labelled tokens\<close>

lemma eval_denylisted_token: "extractKmsServers (str ''kms:github.com:1'') = Returns []"
  by code_simp

lemma eval_mixed_case_label: "extractKmsServers (str ''Kms:kmsa:1'') = Returns []"
  by code_simp

lemma eval_overlapped_token: "extractKmsServers (str ''kms:kms:kmsa:1'') = Returns [str ''kms:1688'']"
  by code_simp

lemma eval_likely: "isLikelyKmsServer (str ''kmsa:1'')"
  by code_simp

text \<open>
  C3, as stated, fails in three ways. The token \<open>kms:github.com:1\<close> is well formed and
  \<open>github.com:1\<close> is not extracted (the post-filter rejects it). The label \<open>Kms\<close> is not
  matched, so \<open>kmsa:1\<close>, which the post-filter accepts, is not extracted from
  \<open>Kms:kmsa:1\<close>. In \<open>kms:kms:kmsa:1\<close> the token \<open>kms:kmsa:1\<close> starts inside the match of
  the token before it and is never seen.
\<close>

theorem labelled_token_not_extracted:
  "extractKmsServers (str ''kms:github.com:1'') = Returns []
   \<and> extractKmsServers (str ''Kms:kmsa:1'') = Returns []
   \<and> isLikelyKmsServer (str ''kmsa:1'')
   \<and> extractKmsServers (str ''kms:kms:kmsa:1'') = Returns [str ''kms:1688'']"
  using eval_denylisted_token eval_mixed_case_label eval_likely eval_overlapped_token
  by (intro conjI)

text \<open>
  C3, amended. Take any labelled token of the text: the label \<open>kms\<close> or \<open>KMS\<close> in
  exactly these spellings, optional whitespace, a colon, optional whitespace, the host as
  the longest run of \<open>[a-zA-Z0-9.-]\<close>, and as port the longest run of digits after a
  colon that follows the host, or \<open>1688\<close> when there is none. If the token does not start
  strictly inside a match that the loop of the first pattern visits (the loop goes on
  after the end of each match), and if \<open>isLikelyKmsServer\<close> accepts \<open>host:port\<close>, then the
  extraction returns a list that holds exactly that string.
\<close>

theorem labelled_token_extracted:
  assumes t: "t = pre @ lab @ ws1 @ cu CHR '':'' # ws2 @ host @ rest"
    and lab: "lab = str ''kms'' \<or> lab = str ''KMS''"
    and ws: "list_all isSpace ws1" "list_all isSpace ws2"
    and host: "host \<noteq> []" "list_all hostChar host" "rest = [] \<or> \<not> hostChar (hd rest)"
    and free: "\<forall>z \<in> set (execAll kmsLabelRe t 0). \<not> (fst z < length pre \<and> length pre < snd z)"
    and endpoint: "endpoint = host @ str '':'' @ (case tokenPort rest of None \<Rightarrow> str ''1688'' | Some p \<Rightarrow> p)"
    and likely: "isLikelyKmsServer endpoint"
  shows "\<exists>vs. extractKmsServers t = Returns vs \<and> endpoint \<in> set vs"
proof -
  define a where "a = length pre + 3 + length ws1 + 1 + length ws2"
  define e where "e = a + length host + (case tokenPort rest of None \<Rightarrow> 0 | Some p \<Rightarrow> Suc (length p))"
  define y :: mstate where "y = (e, Map.empty(1 \<mapsto> (a, e)))"
  from rule1_first [OF t lab ws host a_def e_def, of Map.empty]
  have fm: "firstMatch kmsLabelRe t (length pre, Map.empty) = Some y" by (simp add: y_def)
  then obtain ys where ys: "m kmsLabelRe t (length pre, Map.empty) = y # ys"
    by (auto simp: firstMatch_def split: list.splits)
  from t have inside: "length pre \<le> length t" by simp
  from lab have len: "length lab = 3" by (auto simp: str_def)
  from t len have da: "drop a t = host @ rest" by (simp add: a_def drop_append)
  have g1: "matchGroup t y 1
      = Str (host @ (case tokenPort rest of None \<Rightarrow> [] | Some p \<Rightarrow> cu CHR '':'' # p))"
    using token_substring [OF da e_def] by (simp add: matchGroup_def y_def)
  have g2: "matchGroup t y 2 = Undefined" by (simp add: matchGroup_def y_def)
  have sv: "serverOf False (matchGroup t y 1) (matchGroup t y 2) = Returns endpoint"
    unfolding g1 g2 endpoint by (rule serverOf_token [OF host(2)])
  have wb: "1 \<le> minlen kmsLabelRe" "False \<or> mustSet 1 kmsLabelRe"
    using wb_kmsLabelRe by simp_all
  from scanLoop_includes [OF wb ys inside sv likely _ free, of "[]"]
  obtain vs1 where vs1: "scanLoop False kmsLabelRe t 0 [] = Returns vs1" "endpoint \<in> set vs1"
    by auto
  let ?rest = "[(False, domainTokenRe), (True, ipTokenRe), (False, serverKeywordRe)]"
  have "\<exists>vs. patternsLoop ?rest t vs1 = Returns vs \<and> endpoint \<in> set vs"
  proof (rule patternsLoop_invariant [where I = "\<lambda>vs. endpoint \<in> set vs"])
    fix p assume "p \<in> set ?rest"
    then have "p \<in> set regexPatterns" by (auto simp: regexPatterns_def)
    then show "1 \<le> minlen (snd p) \<and> (fst p \<or> mustSet 1 (snd p))" by (rule wb_regexPatterns)
  next
    fix acc server assume "endpoint \<in> set acc"
    then show "endpoint \<in> set (set_add acc server)" by (rule keeps_member)
  next
    show "endpoint \<in> set vs1" by fact
  qed
  then obtain vs2 where vs2: "patternsLoop ?rest t vs1 = Returns vs2" "endpoint \<in> set vs2" by auto
  from vs1(1) vs2(1) have "patternsLoop regexPatterns t [] = Returns vs2"
    by (simp add: regexPatterns_def)
  then have "extractKmsServers t = Returns (specificLoop specificServers t vs2)"
    by (simp add: extractKmsServers_def)
  moreover from vs2(2) have "endpoint \<in> set (specificLoop specificServers t vs2)"
    by (simp add: set_specificLoop)
  ultimately show ?thesis by blast
qed

theorem labelled_token_extracted_witness:
  "execAll kmsLabelRe (str ''kms:a.kms:1 kms:b.kms:2'') 0 = [(0, 11), (12, 23)]
   \<and> isLikelyKmsServer (str ''b.kms:2'')
   \<and> (\<exists>vs. extractKmsServers (str ''kms:a.kms:1 kms:b.kms:2'') = Returns vs
          \<and> str ''b.kms:2'' \<in> set vs)"
proof -
  let ?t = "str ''kms:a.kms:1 kms:b.kms:2''"
  have t: "?t = str ''kms:a.kms:1 '' @ str ''kms'' @ [] @ cu CHR '':'' # [] @ str ''b.kms'' @ str '':2''"
    by (simp add: str_def)
  have lab: "str ''kms'' = str ''kms'' \<or> str ''kms'' = str ''KMS''" by simp
  have ws: "list_all isSpace []" "list_all isSpace []" by simp_all
  have host: "str ''b.kms'' \<noteq> []" "list_all hostChar (str ''b.kms'')"
    "str '':2'' = [] \<or> \<not> hostChar (hd (str '':2''))" by code_simp+
  have visited: "execAll kmsLabelRe ?t 0 = [(0, 11), (12, 23)]" by code_simp
  have "length (str ''kms:a.kms:1 '') = 12" by (simp add: str_def)
  then have free: "\<forall>z \<in> set (execAll kmsLabelRe ?t 0).
      \<not> (fst z < length (str ''kms:a.kms:1 '') \<and> length (str ''kms:a.kms:1 '') < snd z)"
    by (simp only: visited) simp
  have endpoint: "str ''b.kms:2''
      = str ''b.kms'' @ str '':'' @ (case tokenPort (str '':2'') of None \<Rightarrow> str ''1688'' | Some p \<Rightarrow> p)"
    by code_simp
  have likely: "isLikelyKmsServer (str ''b.kms:2'')" by code_simp
  from labelled_token_extracted [OF t lab ws host free endpoint likely] visited likely
  show ?thesis by (intro conjI)
qed

section \<open>The denylist\<close>

text \<open>
  C4, evaluated where the claim fails. The host \<open>app.js\<close> matches a pattern of the
  denylist, the one for the extension \<open>.js\<close>; the filter tests the string with the port,
  \<open>app.js:1688\<close>, which no pattern of the denylist matches; and the extraction returns
  \<open>app.js:1688\<close> for the text \<open>app.js\<close>.
\<close>

theorem extension_host_extracted:
  "extractKmsServers (str ''app.js'') = Returns [str ''app.js:1688'']
   \<and> list_ex (\<lambda>pattern. test pattern (str ''app.js'')) notKmsPatterns
   \<and> \<not> list_ex (\<lambda>pattern. test pattern (str ''app.js:1688'')) notKmsPatterns"
  by code_simp

section \<open>The Endpoint invariant\<close>

lemma eval_bad_endpoint: "extractKmsServers (str ''kms:-kms.:0'') = Returns [str ''-kms.:0'']"
  by code_simp

text \<open>
  C7, as stated, fails: the text \<open>kms:-kms.:0\<close> gives the endpoint \<open>-kms.:0\<close>, whose port
  is 0 and whose host is neither a sequence of DNS labels nor a dotted quad.
\<close>

theorem extracted_endpoint_violates_invariant:
  "extractKmsServers (str ''kms:-kms.:0'') = Returns [str ''-kms.:0'']
   \<and> \<not> endpointInvariant (str ''-kms.:0'')
   \<and> \<not> portInvariant (str ''0'')
   \<and> \<not> hostInvariant (str ''-kms.'')"
proof (intro conjI)
  show "extractKmsServers (str ''kms:-kms.:0'') = Returns [str ''-kms.:0'']"
    by (rule eval_bad_endpoint)
  show "\<not> endpointInvariant (str ''-kms.:0'')" by code_simp
  show "\<not> portInvariant (str ''0'')" by code_simp
  show "\<not> hostInvariant (str ''-kms.'')" by code_simp
qed

text \<open>
  C7, amended. The extraction always returns, and every endpoint it returns is a string
  \<open>host:port\<close> with exactly one colon, a non-empty host of characters \<open>[a-zA-Z0-9.-]\<close>
  and a non-empty port of decimal digits.
\<close>

theorem extracted_shape:
  "\<exists>vs. extractKmsServers t = Returns vs \<and> (\<forall>s \<in> set vs. endpointShape s)"
proof -
  have "\<exists>vs. patternsLoop regexPatterns t [] = Returns vs \<and> list_all endpointShape vs"
  proof (rule patternsLoop_invariant [where I = "list_all endpointShape"])
    fix p assume "p \<in> set regexPatterns"
    then show "1 \<le> minlen (snd p) \<and> (fst p \<or> mustSet 1 (snd p))" by (rule wb_regexPatterns)
  next
    fix p s y server acc
    assume p: "p \<in> set regexPatterns" and y: "y \<in> set (m (snd p) t (s, Map.empty))"
      and sv: "serverOf (fst p) (matchGroup t y 1) (matchGroup t y 2) = Returns server"
      and acc: "list_all endpointShape acc"
    from p have "p = (False, kmsLabelRe) \<or> p = (False, domainTokenRe) \<or> p = (True, ipTokenRe)
        \<or> p = (False, serverKeywordRe)"
      by (simp add: regexPatterns_def)
    with y sv have "endpointShape server"
      using shape_kmsLabelRe shape_domainTokenRe shape_ipTokenRe shape_serverKeywordRe
      by (elim disjE) auto
    with acc show "list_all endpointShape (set_add acc server)" by (rule list_all_set_add)
  qed simp
  then obtain vs where vs: "patternsLoop regexPatterns t [] = Returns vs" "list_all endpointShape vs"
    by blast
  then have "extractKmsServers t = Returns (specificLoop specificServers t vs)"
    by (simp add: extractKmsServers_def)
  moreover have "\<forall>s \<in> set (specificLoop specificServers t vs). endpointShape s"
    using vs(2) shape_specific by (auto simp: set_specificLoop list_all_iff)
  ultimately show ?thesis by blast
qed

theorem extracted_shape_witness:
  "extractKmsServers (str ''kms:-kms.:0'') = Returns [str ''-kms.:0'']
   \<and> endpointShape (str ''-kms.:0'')"
  using extracted_shape [of "str ''kms:-kms.:0''"] eval_bad_endpoint by auto

end
